theory Spec2Isabelle
  imports Main "HOL-Library.Sublist" "HOL-Library.AList"
begin

section \<open>Data model of the \<open>Mousetrap\<close> class\<close>

text \<open>
  The embedding follows the latest revision of the class (the one whose \<open>bind\<close>
  returns a map of errors and whose \<open>unbind\<close> normalises its arguments).
  The key-notation library (\<open>parseSequence\<close>, \<open>normalize\<close>, \<open>stringify\<close>) is not
  part of the sources; its three functions are parameters of the model, and so
  is the behaviour of the user's commands (\<open>throws\<close>: whether a command, called
  on an event, raises, and what).
\<close>

text \<open>
  A DOM \<open>KeyboardEvent\<close>: the two flags the handler reads itself, and the
  event's \<open>key\<close> (field \<open>eventKey\<close>), which only \<open>stringify\<close> looks at.
\<close>

record keyboard_event =
  isTrusted :: bool
  isComposing :: bool
  eventKey :: string

datatype binding_error =
  InvalidSequenceError
  | InvalidKeyError
  | DisallowedModifierError
  | DuplicateModifierError
  | UnknownModifierError

text \<open>
  The closure \<open>bestMatchCommand\<close> captures the matched key, the command read
  from the table at that moment, and the event of that turn.
\<close>

type_synonym 'c best_match = "string \<times> 'c \<times> keyboard_event"

text \<open>The two callbacks ever handed to \<open>setTimeout\<close>.\<close>

datatype 'c timeout_handler =
  PrevBestMatchCommand "'c best_match"
  | BackToInitial

text \<open>What the code sends to the logger.\<close>

datatype 'x log_entry =
  Debug_sequence string
  | Debug_run string
  | Debug_candidates nat "string list"
  | Debug_reset
  | Debug_binded "string list"
  | Error_sequence string binding_error
  | Error_thrown 'x

record mousetrap_options =
  opt_onSequenceUpdate :: bool
  opt_flushInterval :: "int option"

text \<open>
  The private fields of the object, followed by the part of the host the
  object acts on: the timers of the event loop that are still alive
  (\<open>timeouts\<close>: id, callback, delay), the next timer id, whether
  \<open>handleKeydown\<close> is registered on the target, the calls of commands made so
  far, the logger's output and the values passed to \<open>onSequenceUpdate\<close>.
  A JavaScript \<open>Map\<close> is an association list in insertion order, a \<open>Set\<close> a
  list without duplicates in insertion order.
\<close>

record ('c, 'x) mousetrap =
  bindings :: "(string \<times> 'c) list"
  onSequenceUpdate :: bool
  flushInterval :: int
  currentSequence :: string
  prevBestMatchCommand :: "'c best_match option"
  filtered :: "string list"
  timer :: "nat option"
  timeouts :: "(nat \<times> 'c timeout_handler \<times> int) list"
  nextTimeoutId :: nat
  listening :: bool
  invoked :: "('c \<times> keyboard_event) list"
  logged :: "'x log_entry list"
  notified :: "string list"

section \<open>Host primitives\<close>

definition startsWith :: "string \<Rightarrow> string \<Rightarrow> bool" where
  "startsWith str searchString = prefix searchString str"

definition set_add :: "'a \<Rightarrow> 'a list \<Rightarrow> 'a list" where
  "set_add x xs = (if x \<in> set xs then xs else xs @ [x])"

definition set_delete :: "'a \<Rightarrow> 'a list \<Rightarrow> 'a list" where
  "set_delete x xs = removeAll x xs"

definition logger :: "'x log_entry \<Rightarrow> ('c, 'x) mousetrap \<Rightarrow> ('c, 'x) mousetrap" where
  "logger entry s = s\<lparr>logged := logged s @ [entry]\<rparr>"

text \<open>\<open>clearTimeout(undefined)\<close> and \<open>clearTimeout\<close> of a dead timer do nothing.\<close>

definition clearTimeout :: "nat option \<Rightarrow> ('c, 'x) mousetrap \<Rightarrow> ('c, 'x) mousetrap" where
  "clearTimeout t s =
     (case t of
        None \<Rightarrow> s
      | Some i \<Rightarrow> s\<lparr>timeouts := filter (\<lambda>(j, h, d). j \<noteq> i) (timeouts s)\<rparr>)"

definition setTimeout ::
  "'c timeout_handler \<Rightarrow> int \<Rightarrow> ('c, 'x) mousetrap \<Rightarrow> nat \<times> ('c, 'x) mousetrap" where
  "setTimeout handler delay s =
     (nextTimeoutId s,
      s\<lparr>timeouts := timeouts s @ [(nextTimeoutId s, handler, delay)],
        nextTimeoutId := Suc (nextTimeoutId s)\<rparr>)"

section \<open>The class\<close>

definition Mousetrap_new :: "mousetrap_options option \<Rightarrow> ('c, 'x) mousetrap" where
  "Mousetrap_new options =
     \<lparr>bindings = [],
      onSequenceUpdate = (case options of None \<Rightarrow> False | Some opts \<Rightarrow> opt_onSequenceUpdate opts),
      flushInterval =
        (case (case options of None \<Rightarrow> None | Some opts \<Rightarrow> opt_flushInterval opts) of
           None \<Rightarrow> 1000
         | Some n \<Rightarrow> n),
      currentSequence = [],
      prevBestMatchCommand = None,
      filtered = [],
      timer = None,
      timeouts = [],
      nextTimeoutId = 0,
      listening = False,
      invoked = [],
      logged = [],
      notified = []\<rparr>"

text \<open>The setter of \<open>currentSequence\<close>: the callback is told only of a changed value.\<close>

definition set_currentSequence :: "string \<Rightarrow> ('c, 'x) mousetrap \<Rightarrow> ('c, 'x) mousetrap" where
  "set_currentSequence sequence s =
     (let changed = (currentSequence s \<noteq> sequence);
          s = s\<lparr>currentSequence := sequence\<rparr>
      in if changed \<and> onSequenceUpdate s then s\<lparr>notified := notified s @ [sequence]\<rparr> else s)"

definition backToInitial :: "('c, 'x) mousetrap \<Rightarrow> ('c, 'x) mousetrap" where
  "backToInitial s =
     (let s = clearTimeout (timer s) s;
          s = set_currentSequence [] s;
          s = s\<lparr>prevBestMatchCommand := None\<rparr>;
          s = s\<lparr>filtered := map fst (bindings s)\<rparr>
      in logger Debug_reset s)"

text \<open>
  The body of the closure \<open>bestMatchCommand\<close>: \<open>try command(e) catch log finally
  backToInitial\<close>.
\<close>

definition runBestMatch ::
  "('c \<Rightarrow> keyboard_event \<Rightarrow> 'x option) \<Rightarrow> 'c best_match \<Rightarrow> ('c, 'x) mousetrap \<Rightarrow> ('c, 'x) mousetrap" where
  "runBestMatch throws m s =
     (case m of (key, command, e) \<Rightarrow>
        let s = logger (Debug_run key) s;
            s = s\<lparr>invoked := invoked s @ [(command, e)]\<rparr>;
            s = (case throws command e of
                   Some error \<Rightarrow> logger (Error_thrown error) s
                 | None \<Rightarrow> s)
        in backToInitial s)"

text \<open>
  The \<open>for (const key of this.filtered)\<close> loop of \<open>handleKeydown\<close>. The loop
  deletes only the key it is visiting, so it visits the keys the set held when
  the loop began, in order.
\<close>

fun filterLoop ::
  "keyboard_event \<Rightarrow> string list \<Rightarrow> 'c best_match option \<Rightarrow> ('c, 'x) mousetrap
    \<Rightarrow> 'c best_match option \<times> ('c, 'x) mousetrap" where
  "filterLoop e [] bestMatchCommand s = (bestMatchCommand, s)"
| "filterLoop e (key # keys) bestMatchCommand s =
     (let s = (if \<not> startsWith key (currentSequence s)
               then s\<lparr>filtered := set_delete key (filtered s)\<rparr> else s)
      in if currentSequence s \<noteq> key then filterLoop e keys bestMatchCommand s
         else (case map_of (bindings s) key of
                 None \<Rightarrow> filterLoop e keys bestMatchCommand (s\<lparr>filtered := set_delete key (filtered s)\<rparr>)
               | Some command \<Rightarrow> filterLoop e keys (Some (key, command, e)) s))"

text \<open>
  \<open>handleKeydown\<close> up to and including \<open>if (size > 0) this.prevBestMatchCommand =
  bestMatchCommand\<close>, for an event that passed the three guards.
\<close>

definition narrow ::
  "string \<Rightarrow> keyboard_event \<Rightarrow> ('c, 'x) mousetrap \<Rightarrow> ('c, 'x) mousetrap" where
  "narrow vimKey e s =
     (let s = set_currentSequence (currentSequence s @ vimKey) s;
          s = logger (Debug_sequence (currentSequence s)) s;
          (bestMatchCommand, s) = filterLoop e (filtered s) None s;
          size = length (filtered s);
          s = logger (Debug_candidates size (filtered s)) s
      in if size > 0 then s\<lparr>prevBestMatchCommand := bestMatchCommand\<rparr> else s)"

text \<open>
  \<open>handleKeydown\<close>. The two calls \<open>e.preventDefault()\<close> and
  \<open>e.stopPropagation()\<close> that precede \<open>setTimeout\<close> act on the event alone and
  leave the object as it is, so they have no counterpart in the state. The
  function calls itself in one place, the replay of the event after the held
  command has run; that this recursion ends is proved further down, once the
  facts about the filter pass that it rests on are available.
\<close>

function handleKeydown ::
  "(keyboard_event \<Rightarrow> string) \<Rightarrow> ('c \<Rightarrow> keyboard_event \<Rightarrow> 'x option) \<Rightarrow> keyboard_event
    \<Rightarrow> ('c, 'x) mousetrap \<Rightarrow> ('c, 'x) mousetrap" where
  "handleKeydown stringify throws e s =
     (if \<not> isTrusted e then s
      else let vimKey = stringify e in
      if vimKey = [] then s
      else let s = clearTimeout (timer s) s in
      if isComposing e then backToInitial s
      else let s = narrow vimKey e s;
               size = length (filtered s)
      in if prevBestMatchCommand s \<noteq> None \<and> size < 2
         then (let s = runBestMatch throws (the (prevBestMatchCommand s)) s
               in if size = 0 then handleKeydown stringify throws e s else s)
         else if size = 0 then backToInitial s
         else (let handler = (case prevBestMatchCommand s of
                                Some m \<Rightarrow> PrevBestMatchCommand m
                              | None \<Rightarrow> BackToInitial);
                   (i, s) = setTimeout handler (flushInterval s) s
               in s\<lparr>timer := Some i\<rparr>))"
  by pat_completeness auto

text \<open>
  The host calls \<open>handleKeydown\<close> for a keydown on the target only while the
  listener is registered.
\<close>

definition dispatchEvent ::
  "(keyboard_event \<Rightarrow> string) \<Rightarrow> ('c \<Rightarrow> keyboard_event \<Rightarrow> 'x option) \<Rightarrow> keyboard_event
    \<Rightarrow> ('c, 'x) mousetrap \<Rightarrow> ('c, 'x) mousetrap" where
  "dispatchEvent stringify throws e s =
     (if listening s then handleKeydown stringify throws e s else s)"

text \<open>
  The event loop fires timer \<open>i\<close>: a timer that was cleared, or has fired, is no
  longer among \<open>timeouts\<close> and nothing happens; a live one is removed and its
  callback runs.
\<close>

definition fireTimeout ::
  "('c \<Rightarrow> keyboard_event \<Rightarrow> 'x option) \<Rightarrow> nat \<Rightarrow> ('c, 'x) mousetrap \<Rightarrow> ('c, 'x) mousetrap" where
  "fireTimeout throws i s =
     (case find (\<lambda>(j, h, d). j = i) (timeouts s) of
        None \<Rightarrow> s
      | Some (j, handler, d) \<Rightarrow>
          let s = s\<lparr>timeouts := filter (\<lambda>(j, h, d). j \<noteq> i) (timeouts s)\<rparr>
          in (case handler of
                PrevBestMatchCommand m \<Rightarrow> runBestMatch throws m s
              | BackToInitial \<Rightarrow> backToInitial s))"

definition emitChange :: "('c, 'x) mousetrap \<Rightarrow> ('c, 'x) mousetrap" where
  "emitChange s =
     (if length (bindings s) = 0
      then (let s = backToInitial s in s\<lparr>listening := False\<rparr>)
      else s\<lparr>listening := True\<rparr>)"

text \<open>
  \<open>normalizeSequence\<close>: \<open>Inl\<close> is \<open>{ok: false, value: errors}\<close>, \<open>Inr\<close> is
  \<open>{ok: true, value: normalizedSequence}\<close>. \<open>parseSequence\<close> yields \<open>None\<close> for
  a text it cannot split into keys; \<open>normalizeKey\<close> (the library's \<open>normalize\<close>) yields the canonical token of
  one key or its error.
\<close>

fun normalizeKeys ::
  "('k \<Rightarrow> binding_error + string) \<Rightarrow> 'k list \<Rightarrow> string \<Rightarrow> binding_error list
    \<Rightarrow> string \<times> binding_error list" where
  "normalizeKeys normalizeKey [] normalizedSequence errors = (normalizedSequence, errors)"
| "normalizeKeys normalizeKey (key # keys) normalizedSequence errors =
     (case normalizeKey key of
        Inl error \<Rightarrow> normalizeKeys normalizeKey keys normalizedSequence (errors @ [error])
      | Inr v \<Rightarrow> normalizeKeys normalizeKey keys (normalizedSequence @ v) errors)"

definition normalizeSequence ::
  "(string \<Rightarrow> 'k list option) \<Rightarrow> ('k \<Rightarrow> binding_error + string) \<Rightarrow> string
    \<Rightarrow> binding_error list + string" where
  "normalizeSequence parseSequence normalizeKey sequence =
     (case parseSequence sequence of
        None \<Rightarrow> Inl [InvalidSequenceError]
      | Some keys \<Rightarrow>
          (case normalizeKeys normalizeKey keys [] [] of
             (normalizedSequence, errors) \<Rightarrow>
               if length errors > 0 then Inl errors else Inr normalizedSequence))"

text \<open>
  \<open>bind\<close>. Its argument is the list of entries the loop runs over: the entries
  of the \<open>Map\<close> or of the object, or the one pair \<open>(sequence, command)\<close>.
\<close>

fun bindLoop ::
  "(string \<Rightarrow> 'k list option) \<Rightarrow> ('k \<Rightarrow> binding_error + string) \<Rightarrow> (string \<times> 'c) list
    \<Rightarrow> (string \<times> binding_error list) list \<Rightarrow> string list \<Rightarrow> ('c, 'x) mousetrap
    \<Rightarrow> (string \<times> binding_error list) list \<times> string list \<times> ('c, 'x) mousetrap" where
  "bindLoop parseSequence normalizeKey [] errorMap sequences s = (errorMap, sequences, s)"
| "bindLoop parseSequence normalizeKey ((seq, cmd) # rest) errorMap sequences s =
     (case normalizeSequence parseSequence normalizeKey seq of
        Inl errors \<Rightarrow>
          bindLoop parseSequence normalizeKey rest (AList.update seq errors errorMap) sequences
            (foldl (\<lambda>s error. logger (Error_sequence seq error) s) s errors)
      | Inr normalized \<Rightarrow>
          (let s = s\<lparr>bindings := AList.update normalized cmd (bindings s)\<rparr>;
               s = (if startsWith normalized (currentSequence s)
                    then s\<lparr>filtered := set_add normalized (filtered s)\<rparr> else s)
           in bindLoop parseSequence normalizeKey rest errorMap (sequences @ [normalized]) s))"

definition bind ::
  "(string \<Rightarrow> 'k list option) \<Rightarrow> ('k \<Rightarrow> binding_error + string) \<Rightarrow> (string \<times> 'c) list
    \<Rightarrow> ('c, 'x) mousetrap \<Rightarrow> (string \<times> binding_error list) list \<times> ('c, 'x) mousetrap" where
  "bind parseSequence normalizeKey keyBindings s =
     (case bindLoop parseSequence normalizeKey keyBindings [] [] s of
        (errorMap, sequences, s) \<Rightarrow>
          (errorMap, emitChange (logger (Debug_binded sequences) s)))"

fun unbindLoop ::
  "(string \<Rightarrow> 'k list option) \<Rightarrow> ('k \<Rightarrow> binding_error + string) \<Rightarrow> string list
    \<Rightarrow> ('c, 'x) mousetrap \<Rightarrow> ('c, 'x) mousetrap" where
  "unbindLoop parseSequence normalizeKey [] s = s"
| "unbindLoop parseSequence normalizeKey (sequence # sequences) s =
     (case normalizeSequence parseSequence normalizeKey sequence of
        Inl errors \<Rightarrow> unbindLoop parseSequence normalizeKey sequences s
      | Inr normalized \<Rightarrow>
          unbindLoop parseSequence normalizeKey sequences
            (s\<lparr>bindings := AList.delete normalized (bindings s),
               filtered := set_delete normalized (filtered s)\<rparr>))"

definition unbind ::
  "(string \<Rightarrow> 'k list option) \<Rightarrow> ('k \<Rightarrow> binding_error + string) \<Rightarrow> string list
    \<Rightarrow> ('c, 'x) mousetrap \<Rightarrow> ('c, 'x) mousetrap" where
  "unbind parseSequence normalizeKey sequences s =
     emitChange (unbindLoop parseSequence normalizeKey sequences s)"

definition reset :: "('c, 'x) mousetrap \<Rightarrow> ('c, 'x) mousetrap" where
  "reset s = emitChange (s\<lparr>bindings := []\<rparr>)"

section \<open>States of the engine\<close>

text \<open>
  Idle: empty buffer, every bound sequence a candidate, nothing held, no timer
  alive.
\<close>

definition idle :: "('c, 'x) mousetrap \<Rightarrow> bool" where
  "idle s \<longleftrightarrow>
     currentSequence s = [] \<and> filtered s = map fst (bindings s)
     \<and> prevBestMatchCommand s = None \<and> timeouts s = []"

text \<open>
  The invariant of the object: the table has one entry per key, the candidate
  set is the set of bound sequences that start with the buffer, and the only
  timer that can be alive is the one \<open>this.timer\<close> names, armed with the
  callback \<open>this.prevBestMatchCommand ?? this.backToInitial\<close> and the
  configured delay.
\<close>

definition consistent :: "('c, 'x) mousetrap \<Rightarrow> bool" where
  "consistent s \<longleftrightarrow>
     distinct (map fst (bindings s)) \<and> distinct (filtered s)
     \<and> set (filtered s) = set (filter (\<lambda>k. startsWith k (currentSequence s)) (map fst (bindings s)))
     \<and> (case timeouts s of
          [] \<Rightarrow> True
        | [(i, handler, delay)] \<Rightarrow>
            timer s = Some i \<and> delay = flushInterval s
            \<and> handler = (case prevBestMatchCommand s of
                           Some m \<Rightarrow> PrevBestMatchCommand m
                         | None \<Rightarrow> BackToInitial)
        | _ \<Rightarrow> False)"

text \<open>
  The states an object built with \<open>options\<close> can be in: the public methods, the
  keydown events of the host and the expiry of timers, in any order.
\<close>

inductive reachable ::
  "(string \<Rightarrow> 'k list option) \<Rightarrow> ('k \<Rightarrow> binding_error + string) \<Rightarrow> (keyboard_event \<Rightarrow> string)
    \<Rightarrow> ('c \<Rightarrow> keyboard_event \<Rightarrow> 'x option) \<Rightarrow> mousetrap_options option
    \<Rightarrow> ('c, 'x) mousetrap \<Rightarrow> bool"
  for parseSequence normalizeKey stringify throws options where
  reachable_new:
    "reachable parseSequence normalizeKey stringify throws options (Mousetrap_new options)"
| reachable_bind:
    "reachable parseSequence normalizeKey stringify throws options s \<Longrightarrow>
     reachable parseSequence normalizeKey stringify throws options
       (snd (bind parseSequence normalizeKey keyBindings s))"
| reachable_unbind:
    "reachable parseSequence normalizeKey stringify throws options s \<Longrightarrow>
     reachable parseSequence normalizeKey stringify throws options
       (unbind parseSequence normalizeKey sequences s)"
| reachable_reset:
    "reachable parseSequence normalizeKey stringify throws options s \<Longrightarrow>
     reachable parseSequence normalizeKey stringify throws options (reset s)"
| reachable_keydown:
    "reachable parseSequence normalizeKey stringify throws options s \<Longrightarrow>
     reachable parseSequence normalizeKey stringify throws options
       (dispatchEvent stringify throws e s)"
| reachable_timeout:
    "reachable parseSequence normalizeKey stringify throws options s \<Longrightarrow>
     reachable parseSequence normalizeKey stringify throws options (fireTimeout throws i s)"

text \<open>
  \<open>logger.debug("sequence", ...)\<close> is the first statement of \<open>handleKeydown\<close>
  past its guards, so the number of such entries in the log is the number of
  times the token-processing algorithm has been entered.
\<close>

fun isSequenceEntry :: "'x log_entry \<Rightarrow> bool" where
  "isSequenceEntry (Debug_sequence q) = True"
| "isSequenceEntry _ = False"

definition passes :: "('c, 'x) mousetrap \<Rightarrow> nat" where
  "passes s = length (filter isSequenceEntry (logged s))"

section \<open>Collaborators used to run the model on examples\<close>

text \<open>
  The event the test suite's mock target builds for a key: trusted, and with no
  \<open>isComposing\<close> flag.
\<close>

definition mockEvent :: "string \<Rightarrow> keyboard_event" where
  "mockEvent k = \<lparr>isTrusted = True, isComposing = False, eventKey = k\<rparr>"

text \<open>
  A small stand-in for the key-notation library, enough for the sequences of
  the examples: every character is one key, a text holding \<open><\<close> does not
  parse, and the key \<open>?\<close> is invalid. An event stringifies to its \<open>key\<close>.
\<close>

definition sampleParseSequence :: "string \<Rightarrow> string list option" where
  "sampleParseSequence text = (if CHR ''<'' \<in> set text then None else Some (map (\<lambda>c. [c]) text))"

definition sampleNormalize :: "string \<Rightarrow> binding_error + string" where
  "sampleNormalize k = (if k = ''?'' then Inl InvalidKeyError else Inr k)"

definition sampleStringify :: "keyboard_event \<Rightarrow> string" where
  "sampleStringify e = eventKey e"

text \<open>Commands are numbered; in the examples command 13 throws, the others return.\<close>

definition sampleThrows :: "nat \<Rightarrow> keyboard_event \<Rightarrow> string option" where
  "sampleThrows command e = (if command = 13 then Some ''boom'' else None)"

text \<open>
  The running example: a fresh object with exactly \<open>d\<close> (command 10) and \<open>dd\<close>
  (command 20) bound, then the key \<open>d\<close>, then the unbound key \<open>a\<close>.
\<close>

definition exampleD_DD :: "(nat, string) mousetrap" where
  "exampleD_DD =
     snd (bind sampleParseSequence sampleNormalize [(''d'', 10), (''dd'', 20)] (Mousetrap_new None))"

definition example_d :: "(nat, string) mousetrap" where
  "example_d = dispatchEvent sampleStringify sampleThrows (mockEvent ''d'') exampleD_DD"

definition example_d_a :: "(nat, string) mousetrap" where
  "example_d_a = dispatchEvent sampleStringify sampleThrows (mockEvent ''a'') example_d"

text \<open>An event no input device produced, flagged as part of a composition.\<close>

definition untrustedEvent :: keyboard_event where
  "untrustedEvent = \<lparr>isTrusted = False, isComposing = True, eventKey = ''d''\<rparr>"

text \<open>A second example: only \<open>gg\<close> bound, then the key \<open>g\<close>.\<close>

definition exampleGG :: "(nat, string) mousetrap" where
  "exampleGG = snd (bind sampleParseSequence sampleNormalize [(''gg'', 10)] (Mousetrap_new None))"

definition example_g :: "(nat, string) mousetrap" where
  "example_g = dispatchEvent sampleStringify sampleThrows (mockEvent ''g'') exampleGG"

text \<open>A trusted event flagged as part of a composition.\<close>

definition composingEvent :: keyboard_event where
  "composingEvent = \<lparr>isTrusted = True, isComposing = True, eventKey = ''d''\<rparr>"

text \<open>The running example after \<open>d\<close>, when \<open>x\<close> is then bound to command 30.\<close>

definition example_d_bind_x :: "(nat, string) mousetrap" where
  "example_d_bind_x = snd (bind sampleParseSequence sampleNormalize [(''x'', 30)] example_d)"

text \<open>A third example: \<open>x\<close> bound to command 13, which throws, then the key \<open>x\<close>.\<close>

definition exampleX :: "(nat, string) mousetrap" where
  "exampleX = snd (bind sampleParseSequence sampleNormalize [(''x'', 13)] (Mousetrap_new None))"

definition example_x :: "(nat, string) mousetrap" where
  "example_x = dispatchEvent sampleStringify sampleThrows (mockEvent ''x'') exampleX"

text \<open>
  A fourth example: \<open>dd\<close> is bound first (command 20), and then \<open>d\<close> alone
  (command 10), by a call of \<open>bind\<close> with one pair.
\<close>

definition exampleDD :: "(nat, string) mousetrap" where
  "exampleDD = snd (bind sampleParseSequence sampleNormalize [(''dd'', 20)] (Mousetrap_new None))"

definition exampleDD_D :: "(nat, string) mousetrap" where
  "exampleDD_D = snd (bind sampleParseSequence sampleNormalize [(''d'', 10)] exampleDD)"

section \<open>How the primitives act on each field\<close>

lemma logger_fields [simp]:
  "bindings (logger x s) = bindings s"
  "onSequenceUpdate (logger x s) = onSequenceUpdate s"
  "flushInterval (logger x s) = flushInterval s"
  "currentSequence (logger x s) = currentSequence s"
  "prevBestMatchCommand (logger x s) = prevBestMatchCommand s"
  "filtered (logger x s) = filtered s"
  "timer (logger x s) = timer s"
  "timeouts (logger x s) = timeouts s"
  "nextTimeoutId (logger x s) = nextTimeoutId s"
  "listening (logger x s) = listening s"
  "invoked (logger x s) = invoked s"
  "logged (logger x s) = logged s @ [x]"
  "notified (logger x s) = notified s"
  by (simp_all add: logger_def)

lemma clearTimeout_fields [simp]:
  "bindings (clearTimeout t s) = bindings s"
  "onSequenceUpdate (clearTimeout t s) = onSequenceUpdate s"
  "flushInterval (clearTimeout t s) = flushInterval s"
  "currentSequence (clearTimeout t s) = currentSequence s"
  "prevBestMatchCommand (clearTimeout t s) = prevBestMatchCommand s"
  "filtered (clearTimeout t s) = filtered s"
  "timer (clearTimeout t s) = timer s"
  "nextTimeoutId (clearTimeout t s) = nextTimeoutId s"
  "listening (clearTimeout t s) = listening s"
  "invoked (clearTimeout t s) = invoked s"
  "logged (clearTimeout t s) = logged s"
  "notified (clearTimeout t s) = notified s"
  by (simp_all add: clearTimeout_def split: option.splits)

lemma set_currentSequence_fields [simp]:
  "bindings (set_currentSequence q s) = bindings s"
  "onSequenceUpdate (set_currentSequence q s) = onSequenceUpdate s"
  "flushInterval (set_currentSequence q s) = flushInterval s"
  "currentSequence (set_currentSequence q s) = q"
  "prevBestMatchCommand (set_currentSequence q s) = prevBestMatchCommand s"
  "filtered (set_currentSequence q s) = filtered s"
  "timer (set_currentSequence q s) = timer s"
  "timeouts (set_currentSequence q s) = timeouts s"
  "nextTimeoutId (set_currentSequence q s) = nextTimeoutId s"
  "listening (set_currentSequence q s) = listening s"
  "invoked (set_currentSequence q s) = invoked s"
  "logged (set_currentSequence q s) = logged s"
  by (simp_all add: set_currentSequence_def Let_def)

lemma backToInitial_fields [simp]:
  "bindings (backToInitial s) = bindings s"
  "onSequenceUpdate (backToInitial s) = onSequenceUpdate s"
  "flushInterval (backToInitial s) = flushInterval s"
  "currentSequence (backToInitial s) = []"
  "prevBestMatchCommand (backToInitial s) = None"
  "filtered (backToInitial s) = map fst (bindings s)"
  "timer (backToInitial s) = timer s"
  "timeouts (backToInitial s) = timeouts (clearTimeout (timer s) s)"
  "nextTimeoutId (backToInitial s) = nextTimeoutId s"
  "listening (backToInitial s) = listening s"
  "invoked (backToInitial s) = invoked s"
  "logged (backToInitial s) = logged s @ [Debug_reset]"
  by (simp_all add: backToInitial_def Let_def)

lemma filterLoop_fields [simp]:
  "bindings (snd (filterLoop e keys b s)) = bindings s"
  "onSequenceUpdate (snd (filterLoop e keys b s)) = onSequenceUpdate s"
  "flushInterval (snd (filterLoop e keys b s)) = flushInterval s"
  "currentSequence (snd (filterLoop e keys b s)) = currentSequence s"
  "prevBestMatchCommand (snd (filterLoop e keys b s)) = prevBestMatchCommand s"
  "timer (snd (filterLoop e keys b s)) = timer s"
  "timeouts (snd (filterLoop e keys b s)) = timeouts s"
  "nextTimeoutId (snd (filterLoop e keys b s)) = nextTimeoutId s"
  "listening (snd (filterLoop e keys b s)) = listening s"
  "invoked (snd (filterLoop e keys b s)) = invoked s"
  "logged (snd (filterLoop e keys b s)) = logged s"
  "notified (snd (filterLoop e keys b s)) = notified s"
  by (induction keys arbitrary: b s; simp add: Let_def split: option.splits)+

lemma narrow_prev_empty:
  assumes "filtered (narrow vimKey e s) = []"
  shows "prevBestMatchCommand (narrow vimKey e s) = prevBestMatchCommand s"
  using assms
  by (simp add: narrow_def Let_def split_beta split: if_splits)

termination handleKeydown
proof (relation "measure (\<lambda>(stringify, throws, e, s). case prevBestMatchCommand s of None \<Rightarrow> 0 | Some m \<Rightarrow> Suc 0)", goal_cases)
  case 1
  show ?case by simp
next
  case (2 stringify throws e s x xa xb xc xd)
  have "prevBestMatchCommand xd = None"
    using 2 by (simp add: runBestMatch_def split_beta Let_def)
  moreover have "prevBestMatchCommand s \<noteq> None"
    using 2 narrow_prev_empty[of x e xa] by simp
  ultimately show ?case by auto
qed

declare handleKeydown.simps [simp del]

section \<open>The filter pass in closed form\<close>

lemma filterLoop_filtered:
  "filtered (snd (filterLoop e keys b s)) =
     filter (\<lambda>k. \<not> (k \<in> set keys \<and> (\<not> prefix (currentSequence s) k
                      \<or> (k = currentSequence s \<and> map_of (bindings s) k = None)))) (filtered s)"
proof (induction keys arbitrary: b s)
  case Nil
  then show ?case by simp
next
  case (Cons key keys)
  show ?case
    by (auto simp add: Cons Let_def startsWith_def set_delete_def removeAll_filter_not_eq
        split: option.splits intro!: filter_cong)
qed

lemma filterLoop_best:
  "fst (filterLoop e keys b s) =
     (if currentSequence s \<in> set keys
      then (case map_of (bindings s) (currentSequence s) of
              Some command \<Rightarrow> Some (currentSequence s, command, e)
            | None \<Rightarrow> b)
      else b)"
  by (induction keys arbitrary: b s) (auto simp add: Let_def startsWith_def split: option.splits)

lemma narrow_fields [simp]:
  "bindings (narrow v e s) = bindings s"
  "onSequenceUpdate (narrow v e s) = onSequenceUpdate s"
  "flushInterval (narrow v e s) = flushInterval s"
  "currentSequence (narrow v e s) = currentSequence s @ v"
  "timer (narrow v e s) = timer s"
  "timeouts (narrow v e s) = timeouts s"
  "nextTimeoutId (narrow v e s) = nextTimeoutId s"
  "listening (narrow v e s) = listening s"
  "invoked (narrow v e s) = invoked s"
  by (simp_all add: narrow_def Let_def split_beta)

lemma narrow_filtered:
  "filtered (narrow v e s) =
     filter (\<lambda>k. prefix (currentSequence s @ v) k
                 \<and> (k = currentSequence s @ v \<longrightarrow> map_of (bindings s) k \<noteq> None)) (filtered s)"
proof -
  let ?s1 = "logger (Debug_sequence (currentSequence s @ v)) (set_currentSequence (currentSequence s @ v) s)"
  have "filtered (narrow v e s) = filtered (snd (filterLoop e (filtered ?s1) None ?s1))"
    by (simp add: narrow_def Let_def split_beta)
  also have "\<dots> = filter (\<lambda>k. prefix (currentSequence s @ v) k
                 \<and> (k = currentSequence s @ v \<longrightarrow> map_of (bindings s) k \<noteq> None)) (filtered s)"
    unfolding filterLoop_filtered by (rule filter_cong) auto
  finally show ?thesis .
qed

lemma narrow_prev:
  "prevBestMatchCommand (narrow v e s) =
     (if filtered (narrow v e s) = [] then prevBestMatchCommand s
      else if currentSequence s @ v \<in> set (filtered s)
      then (case map_of (bindings s) (currentSequence s @ v) of
              Some command \<Rightarrow> Some (currentSequence s @ v, command, e)
            | None \<Rightarrow> None)
      else None)"
  by (simp add: narrow_def Let_def split_beta filterLoop_best split: option.splits)

lemma narrow_logged:
  "logged (narrow v e s) =
     logged s @ [Debug_sequence (currentSequence s @ v),
                 Debug_candidates (length (filtered (narrow v e s))) (filtered (narrow v e s))]"
  by (simp add: narrow_def Let_def split_beta)

section \<open>Invocation, timers and the invariant\<close>

lemma runBestMatch_fields [simp]:
  "bindings (runBestMatch throws m s) = bindings s"
  "onSequenceUpdate (runBestMatch throws m s) = onSequenceUpdate s"
  "flushInterval (runBestMatch throws m s) = flushInterval s"
  "currentSequence (runBestMatch throws m s) = []"
  "prevBestMatchCommand (runBestMatch throws m s) = None"
  "filtered (runBestMatch throws m s) = map fst (bindings s)"
  "timer (runBestMatch throws m s) = timer s"
  "timeouts (runBestMatch throws m s) = timeouts (clearTimeout (timer s) s)"
  "nextTimeoutId (runBestMatch throws m s) = nextTimeoutId s"
  "listening (runBestMatch throws m s) = listening s"
  "invoked (runBestMatch throws m s) = invoked s @ [(fst (snd m), snd (snd m))]"
  by (simp_all add: runBestMatch_def Let_def split_beta clearTimeout_def logger_def split: option.splits)

lemma runBestMatch_logged:
  "logged (runBestMatch throws m s) =
     logged s @ [Debug_run (fst m)]
       @ (case throws (fst (snd m)) (snd (snd m)) of Some error \<Rightarrow> [Error_thrown error] | None \<Rightarrow> [])
       @ [Debug_reset]"
  by (simp add: runBestMatch_def Let_def split_beta split: option.splits)

lemma passes_simps [simp]:
  "passes (clearTimeout t s) = passes s"
  "passes (backToInitial s) = passes s"
  "passes (runBestMatch throws m s) = passes s"
  "passes (narrow v e s) = Suc (passes s)"
  "passes (s\<lparr>timer := t'\<rparr>) = passes s"
  "passes (snd (setTimeout h d s)) = passes s"
  by (simp_all add: passes_def runBestMatch_logged narrow_logged setTimeout_def split: option.splits)

lemma clearTimeout_timeouts:
  "timeouts (clearTimeout t s) =
     (case t of None \<Rightarrow> timeouts s | Some i \<Rightarrow> filter (\<lambda>(j, h, d). j \<noteq> i) (timeouts s))"
  by (simp add: clearTimeout_def split: option.splits)

lemma clearTimeout_idem [simp]:
  "clearTimeout t (clearTimeout t s) = clearTimeout t s"
  by (simp add: clearTimeout_def split: option.splits)

lemma clearTimeout_timeouts_Nil [simp]:
  "timeouts s = [] \<Longrightarrow> timeouts (clearTimeout t s) = []"
  by (simp add: clearTimeout_timeouts split: option.splits)

lemma consistent_timeouts:
  assumes "consistent s"
  shows "timeouts s = []
         \<or> (\<exists>i. timer s = Some i
                \<and> timeouts s = [(i, (case prevBestMatchCommand s of
                                        Some m \<Rightarrow> PrevBestMatchCommand m
                                      | None \<Rightarrow> BackToInitial), flushInterval s)])"
proof (cases "timeouts s")
  case Nil
  then show ?thesis by simp
next
  case (Cons t ts)
  obtain i h d where t: "t = (i, h, d)" by (cases t)
  show ?thesis
  proof (cases ts)
    case Nil
    with assms Cons t show ?thesis by (simp add: consistent_def)
  next
    case (Cons t' ts')
    with assms \<open>timeouts s = t # ts\<close> t show ?thesis by (simp add: consistent_def)
  qed
qed

lemma consistent_clearTimeout:
  "consistent s \<Longrightarrow> timeouts (clearTimeout (timer s) s) = []"
  using consistent_timeouts[of s] by (auto simp add: clearTimeout_timeouts split: option.splits)

lemma consistent_backToInitial_idle:
  "consistent s \<Longrightarrow> idle (backToInitial s)"
  by (simp add: idle_def consistent_clearTimeout)

lemma consistent_runBestMatch_idle:
  "consistent s \<Longrightarrow> idle (runBestMatch throws m s)"
  by (simp add: idle_def consistent_clearTimeout)

section \<open>The running example, evaluated\<close>

lemmas sample_defs = sampleParseSequence_def sampleNormalize_def sampleStringify_def
  sampleThrows_def mockEvent_def

lemmas engine_defs = bind_def unbind_def reset_def normalizeSequence_def Mousetrap_new_def
  emitChange_def handleKeydown.simps dispatchEvent_def fireTimeout_def narrow_def Let_def
  startsWith_def set_add_def set_delete_def setTimeout_def runBestMatch_def logger_def
  backToInitial_def clearTimeout_def set_currentSequence_def

lemma exampleD_DD_eval:
  "exampleD_DD =
     \<lparr>bindings = [(''d'', 10), (''dd'', 20)], onSequenceUpdate = False, flushInterval = 1000,
      currentSequence = [], prevBestMatchCommand = None, filtered = [''d'', ''dd''],
      timer = None, timeouts = [], nextTimeoutId = 0, listening = True, invoked = [],
      logged = [Debug_binded [''d'', ''dd'']], notified = []\<rparr>"
  by (simp add: exampleD_DD_def sample_defs engine_defs)

lemma example_d_eval:
  "example_d =
     \<lparr>bindings = [(''d'', 10), (''dd'', 20)], onSequenceUpdate = False, flushInterval = 1000,
      currentSequence = ''d'', prevBestMatchCommand = Some (''d'', 10, mockEvent ''d''),
      filtered = [''d'', ''dd''], timer = Some 0,
      timeouts = [(0, PrevBestMatchCommand (''d'', 10, mockEvent ''d''), 1000)],
      nextTimeoutId = 1, listening = True, invoked = [],
      logged = [Debug_binded [''d'', ''dd''], Debug_sequence ''d'', Debug_candidates 2 [''d'', ''dd'']],
      notified = []\<rparr>"
  by (simp add: example_d_def exampleD_DD_eval sample_defs engine_defs)

lemma example_d_a_eval:
  "example_d_a =
     \<lparr>bindings = [(''d'', 10), (''dd'', 20)], onSequenceUpdate = False, flushInterval = 1000,
      currentSequence = [], prevBestMatchCommand = None, filtered = [''d'', ''dd''],
      timer = Some 0, timeouts = [], nextTimeoutId = 1, listening = True,
      invoked = [(10, mockEvent ''d'')],
      logged = [Debug_binded [''d'', ''dd''], Debug_sequence ''d'', Debug_candidates 2 [''d'', ''dd''],
                Debug_sequence ''da'', Debug_candidates 0 [], Debug_run ''d'', Debug_reset,
                Debug_sequence ''a'', Debug_candidates 0 [], Debug_reset],
      notified = []\<rparr>"
  by (simp add: example_d_a_def example_d_eval sample_defs engine_defs)

lemma example_d_handle:
  "example_d = handleKeydown sampleStringify sampleThrows (mockEvent ''d'') exampleD_DD"
  by (simp add: example_d_def dispatchEvent_def exampleD_DD_eval)

lemma example_d_a_handle:
  "example_d_a = handleKeydown sampleStringify sampleThrows (mockEvent ''a'') example_d"
  by (simp add: example_d_a_def dispatchEvent_def example_d_eval)

section \<open>The invariant under a key event\<close>

lemma consistentI:
  assumes "distinct (map fst (bindings s))" and "distinct (filtered s)"
    and "set (filtered s) = {k \<in> fst ` set (bindings s). prefix (currentSequence s) k}"
    and "timeouts s = []
         \<or> (\<exists>i. timer s = Some i
                \<and> timeouts s = [(i, (case prevBestMatchCommand s of
                                        Some m \<Rightarrow> PrevBestMatchCommand m
                                      | None \<Rightarrow> BackToInitial), flushInterval s)])"
  shows "consistent s"
  using assms by (auto simp add: consistent_def startsWith_def)

lemma consistentD:
  assumes "consistent s"
  shows "distinct (map fst (bindings s))" and "distinct (filtered s)"
    and "set (filtered s) = {k \<in> fst ` set (bindings s). prefix (currentSequence s) k}"
  using assms by (auto simp add: consistent_def startsWith_def)

lemma consistent_backToInitial:
  assumes "consistent s"
  shows "consistent (backToInitial s)"
proof (rule consistentI)
  show "distinct (map fst (bindings (backToInitial s)))"
    using consistentD(1)[OF assms] by simp
  show "distinct (filtered (backToInitial s))"
    using consistentD(1)[OF assms] by simp
  show "set (filtered (backToInitial s)) =
          {k \<in> fst ` set (bindings (backToInitial s)). prefix (currentSequence (backToInitial s)) k}"
    by auto
  show "timeouts (backToInitial s) = [] \<or>
    (\<exists>i. timer (backToInitial s) = Some i \<and>
         timeouts (backToInitial s) =
         [(i, case prevBestMatchCommand (backToInitial s) of None \<Rightarrow> BackToInitial
              | Some m \<Rightarrow> PrevBestMatchCommand m,
           flushInterval (backToInitial s))])"
    using consistent_clearTimeout[OF assms] by simp
qed

lemma consistent_runBestMatch:
  assumes "consistent s"
  shows "consistent (runBestMatch throws m s)"
proof (rule consistentI)
  show "distinct (map fst (bindings (runBestMatch throws m s)))"
    using consistentD(1)[OF assms] by simp
  show "distinct (filtered (runBestMatch throws m s))"
    using consistentD(1)[OF assms] by simp
  show "set (filtered (runBestMatch throws m s)) =
          {k \<in> fst ` set (bindings (runBestMatch throws m s)).
             prefix (currentSequence (runBestMatch throws m s)) k}"
    by auto
  show "timeouts (runBestMatch throws m s) = [] \<or>
    (\<exists>i. timer (runBestMatch throws m s) = Some i \<and>
         timeouts (runBestMatch throws m s) =
         [(i, case prevBestMatchCommand (runBestMatch throws m s) of None \<Rightarrow> BackToInitial
              | Some m \<Rightarrow> PrevBestMatchCommand m,
           flushInterval (runBestMatch throws m s))])"
    using consistent_clearTimeout[OF assms] by simp
qed

lemma narrow_filtered_consistent:
  assumes "consistent s"
  shows "set (filtered (narrow v e (clearTimeout (timer s) s)))
           = {k \<in> fst ` set (bindings s). prefix (currentSequence s @ v) k}"
proof -
  have p: "\<And>k. prefix (currentSequence s @ v) k \<Longrightarrow> prefix (currentSequence s) k"
    using append_prefixD by blast
  show ?thesis
    using consistentD(3)[OF assms] p by (auto simp add: narrow_filtered dest: weak_map_of_SomeI)
qed

lemma consistent_narrow:
  assumes "consistent s"
  shows "consistent (narrow v e (clearTimeout (timer s) s))"
proof (rule consistentI)
  let ?s1 = "narrow v e (clearTimeout (timer s) s)"
  show "distinct (map fst (bindings ?s1))"
    using consistentD(1)[OF assms] by simp
  show "distinct (filtered ?s1)"
    using consistentD(2)[OF assms] by (simp add: narrow_filtered)
  show "set (filtered ?s1) = {k \<in> fst ` set (bindings ?s1). prefix (currentSequence ?s1) k}"
    using narrow_filtered_consistent[OF assms] by simp
  show "timeouts ?s1 = [] \<or>
    (\<exists>i. timer ?s1 = Some i \<and>
         timeouts ?s1 =
         [(i, case prevBestMatchCommand ?s1 of None \<Rightarrow> BackToInitial
              | Some m \<Rightarrow> PrevBestMatchCommand m,
           flushInterval ?s1)])"
    using consistent_clearTimeout[OF assms] by simp
qed

lemma consistent_arm:
  assumes "consistent s" and "timeouts s = []"
  shows "consistent (case setTimeout (case prevBestMatchCommand s of
                                Some m \<Rightarrow> PrevBestMatchCommand m
                              | None \<Rightarrow> BackToInitial) (flushInterval s) s of
                       (i, s') \<Rightarrow> s'\<lparr>timer := Some i\<rparr>)"
  using assms by (simp add: consistent_def setTimeout_def)

lemma consistent_handleKeydown:
  "consistent s \<Longrightarrow> consistent (handleKeydown stringify throws e s)"
proof (induction stringify throws e s rule: handleKeydown.induct)
  case (1 stringify throws e s)
  let ?s0 = "clearTimeout (timer s) s"
  let ?s1 = "narrow (stringify e) e ?s0"
  have c0: "consistent (backToInitial ?s0)"
    using consistent_backToInitial[OF "1.prems"] by (simp add: backToInitial_def)
  have c1: "consistent ?s1" by (rule consistent_narrow[OF "1.prems"])
  have t1: "timeouts ?s1 = []" using consistent_clearTimeout[OF "1.prems"] by simp
  note c2 = consistent_runBestMatch[OF c1]
  note c3 = consistent_backToInitial[OF c1]
  note c4 = consistent_arm[OF c1 t1]
  show ?case
    apply (subst handleKeydown.simps)
    using "1.prems" "1.IH" c0 c1 c2 c3 c4
    by (simp add: Let_def)
qed

section \<open>The invariant under the public methods and timers\<close>

lemma consistent_iff:
  "consistent s \<longleftrightarrow>
     distinct (map fst (bindings s)) \<and> distinct (filtered s)
     \<and> set (filtered s) = {k \<in> fst ` set (bindings s). prefix (currentSequence s) k}
     \<and> (timeouts s = []
         \<or> (\<exists>i. timer s = Some i
                \<and> timeouts s = [(i, (case prevBestMatchCommand s of
                                        Some m \<Rightarrow> PrevBestMatchCommand m
                                      | None \<Rightarrow> BackToInitial), flushInterval s)]))"
  using consistentI[of s] consistentD[of s] consistent_timeouts[of s] by blast

lemma consistent_logger [simp]: "consistent (logger x s) = consistent s"
  by (simp add: consistent_iff)

lemma consistent_listening [simp]: "consistent (s\<lparr>listening := b\<rparr>) = consistent s"
  by (simp add: consistent_iff)

lemma foldl_logger_fields [simp]:
  "bindings (foldl (\<lambda>s error. logger (f error) s) s errors) = bindings s"
  "onSequenceUpdate (foldl (\<lambda>s error. logger (f error) s) s errors) = onSequenceUpdate s"
  "flushInterval (foldl (\<lambda>s error. logger (f error) s) s errors) = flushInterval s"
  "currentSequence (foldl (\<lambda>s error. logger (f error) s) s errors) = currentSequence s"
  "prevBestMatchCommand (foldl (\<lambda>s error. logger (f error) s) s errors) = prevBestMatchCommand s"
  "filtered (foldl (\<lambda>s error. logger (f error) s) s errors) = filtered s"
  "timer (foldl (\<lambda>s error. logger (f error) s) s errors) = timer s"
  "timeouts (foldl (\<lambda>s error. logger (f error) s) s errors) = timeouts s"
  "nextTimeoutId (foldl (\<lambda>s error. logger (f error) s) s errors) = nextTimeoutId s"
  "listening (foldl (\<lambda>s error. logger (f error) s) s errors) = listening s"
  "invoked (foldl (\<lambda>s error. logger (f error) s) s errors) = invoked s"
  "notified (foldl (\<lambda>s error. logger (f error) s) s errors) = notified s"
  "logged (foldl (\<lambda>s error. logger (f error) s) s errors) = logged s @ map f errors"
  by (induction errors arbitrary: s; simp)+

lemma consistent_foldl_logger [simp]:
  "consistent (foldl (\<lambda>s error. logger (f error) s) s errors) = consistent s"
  by (simp add: consistent_iff)

lemma bindLoop_fields [simp]:
  "onSequenceUpdate (snd (snd (bindLoop P N kbs em sq s))) = onSequenceUpdate s"
  "flushInterval (snd (snd (bindLoop P N kbs em sq s))) = flushInterval s"
  "currentSequence (snd (snd (bindLoop P N kbs em sq s))) = currentSequence s"
  "prevBestMatchCommand (snd (snd (bindLoop P N kbs em sq s))) = prevBestMatchCommand s"
  "timer (snd (snd (bindLoop P N kbs em sq s))) = timer s"
  "timeouts (snd (snd (bindLoop P N kbs em sq s))) = timeouts s"
  "nextTimeoutId (snd (snd (bindLoop P N kbs em sq s))) = nextTimeoutId s"
  "listening (snd (snd (bindLoop P N kbs em sq s))) = listening s"
  "invoked (snd (snd (bindLoop P N kbs em sq s))) = invoked s"
  "notified (snd (snd (bindLoop P N kbs em sq s))) = notified s"
  by (induction P N kbs em sq s rule: bindLoop.induct; simp add: Let_def split: sum.splits)+

lemma unbindLoop_fields [simp]:
  "onSequenceUpdate (unbindLoop P N qs s) = onSequenceUpdate s"
  "flushInterval (unbindLoop P N qs s) = flushInterval s"
  "currentSequence (unbindLoop P N qs s) = currentSequence s"
  "prevBestMatchCommand (unbindLoop P N qs s) = prevBestMatchCommand s"
  "timer (unbindLoop P N qs s) = timer s"
  "timeouts (unbindLoop P N qs s) = timeouts s"
  "nextTimeoutId (unbindLoop P N qs s) = nextTimeoutId s"
  "listening (unbindLoop P N qs s) = listening s"
  "invoked (unbindLoop P N qs s) = invoked s"
  "notified (unbindLoop P N qs s) = notified s"
  "logged (unbindLoop P N qs s) = logged s"
  by (induction qs arbitrary: s; simp split: sum.splits)+

lemma consistent_bind_step:
  assumes "consistent s"
  shows "consistent (if startsWith n (currentSequence s)
                     then s\<lparr>bindings := AList.update n c (bindings s),
                            filtered := set_add n (filtered s)\<rparr>
                     else s\<lparr>bindings := AList.update n c (bindings s)\<rparr>)"
proof -
  have k: "fst ` set (AList.update n c (bindings s)) = {n} \<union> fst ` set (bindings s)"
    by (rule dom_update)
  have d: "distinct (map fst (AList.update n c (bindings s)))"
    using consistentD(1)[OF assms] by (rule distinct_update)
  show ?thesis
    using assms consistentD[OF assms] k d
    by (auto simp add: consistent_iff set_add_def startsWith_def)
qed

lemma consistent_bindLoop:
  "consistent s \<Longrightarrow> consistent (snd (snd (bindLoop P N kbs em sq s)))"
proof (induction P N kbs em sq s rule: bindLoop.induct)
  case (1 P N em sq s)
  then show ?case by simp
next
  case (2 P N seq cmd rest em sq s)
  show ?case
  proof (cases "normalizeSequence P N seq")
    case (Inl errors)
    then show ?thesis using 2 by simp
  next
    case (Inr n)
    have "consistent (if startsWith n (currentSequence s)
                     then s\<lparr>bindings := AList.update n cmd (bindings s),
                            filtered := set_add n (filtered s)\<rparr>
                     else s\<lparr>bindings := AList.update n cmd (bindings s)\<rparr>)"
      by (rule consistent_bind_step[OF "2.prems"])
    then show ?thesis using Inr "2.IH"(2)[OF Inr] by (simp add: Let_def split: if_splits)
  qed
qed

lemma consistent_unbind_step:
  assumes "consistent s"
  shows "consistent (s\<lparr>bindings := AList.delete n (bindings s),
                       filtered := set_delete n (filtered s)\<rparr>)"
proof -
  have k: "fst ` set (AList.delete n (bindings s)) = fst ` set (bindings s) - {n}"
    using delete_keys[of n "bindings s"] by (metis list.set_map set_removeAll)
  have d: "distinct (map fst (AList.delete n (bindings s)))"
    using consistentD(1)[OF assms] by (rule distinct_delete)
  show ?thesis
    using assms consistentD[OF assms] k d
    by (auto simp add: consistent_iff set_delete_def distinct_removeAll)
qed

lemma consistent_unbindLoop:
  "consistent s \<Longrightarrow> consistent (unbindLoop P N qs s)"
proof (induction qs arbitrary: s)
  case Nil
  then show ?case by simp
next
  case (Cons q qs)
  show ?case
    using Cons.IH[OF Cons.prems] Cons.IH[OF consistent_unbind_step[OF Cons.prems]]
    by (simp split: sum.splits)
qed

lemma consistent_emitChange:
  "consistent s \<Longrightarrow> consistent (emitChange s)"
  by (simp add: emitChange_def Let_def consistent_backToInitial)

lemma consistent_bind:
  "consistent s \<Longrightarrow> consistent (snd (bind P N kbs s))"
  using consistent_bindLoop[of s P N kbs "[]" "[]"]
  by (simp add: bind_def split_beta consistent_emitChange)

lemma consistent_unbind:
  "consistent s \<Longrightarrow> consistent (unbind P N qs s)"
  by (simp add: unbind_def consistent_emitChange consistent_unbindLoop)

lemma consistent_reset:
  assumes "consistent s"
  shows "consistent (reset s)"
proof -
  have "timeouts (clearTimeout (timer s) (s\<lparr>bindings := []\<rparr>)) = []"
    using consistent_clearTimeout[OF assms] by (simp add: clearTimeout_timeouts split: option.splits)
  then show ?thesis
    by (simp add: reset_def emitChange_def Let_def consistent_iff)
qed

lemma consistent_fireTimeout:
  assumes "consistent s"
  shows "consistent (fireTimeout throws i s)"
proof -
  from consistent_timeouts[OF assms] show ?thesis
  proof
    assume "timeouts s = []"
    then show ?thesis using assms by (simp add: fireTimeout_def)
  next
    assume "\<exists>j. timer s = Some j \<and> timeouts s = [(j, (case prevBestMatchCommand s of
                    Some m \<Rightarrow> PrevBestMatchCommand m | None \<Rightarrow> BackToInitial), flushInterval s)]"
    then obtain j where j: "timer s = Some j"
      and t: "timeouts s = [(j, (case prevBestMatchCommand s of
                    Some m \<Rightarrow> PrevBestMatchCommand m | None \<Rightarrow> BackToInitial), flushInterval s)]"
      by blast
    show ?thesis
    proof (cases "j = i")
      case False
      then show ?thesis using assms t by (simp add: fireTimeout_def)
    next
      case True
      have c: "consistent (s\<lparr>timeouts := []\<rparr>)"
        using assms by (simp add: consistent_iff)
      show ?thesis
        using True t consistent_runBestMatch[OF c] consistent_backToInitial[OF c]
        by (simp add: fireTimeout_def Let_def split: timeout_handler.splits option.splits)
    qed
  qed
qed

lemma consistent_new: "consistent (Mousetrap_new options)"
  by (simp add: consistent_iff Mousetrap_new_def)

lemma consistent_dispatchEvent:
  "consistent s \<Longrightarrow> consistent (dispatchEvent stringify throws e s)"
  by (simp add: dispatchEvent_def consistent_handleKeydown)

lemma reachable_consistent:
  "reachable P N stringify throws options s \<Longrightarrow> consistent s"
  by (induction rule: reachable.induct)
    (simp_all add: consistent_new consistent_bind consistent_unbind consistent_reset
      consistent_dispatchEvent consistent_fireTimeout)

section \<open>Fields the handlers leave alone\<close>

lemma emitChange_fields [simp]:
  "bindings (emitChange s) = bindings s"
  "onSequenceUpdate (emitChange s) = onSequenceUpdate s"
  "flushInterval (emitChange s) = flushInterval s"
  "timer (emitChange s) = timer s"
  "nextTimeoutId (emitChange s) = nextTimeoutId s"
  "invoked (emitChange s) = invoked s"
  "listening (emitChange s) = (bindings s \<noteq> [])"
  by (simp_all add: emitChange_def Let_def)

lemma emitChange_nonempty:
  "bindings s \<noteq> [] \<Longrightarrow> emitChange s = s\<lparr>listening := True\<rparr>"
  by (simp add: emitChange_def)

lemma emitChange_empty:
  "bindings s = [] \<Longrightarrow> emitChange s = (backToInitial s)\<lparr>listening := False\<rparr>"
  by (simp add: emitChange_def Let_def)

lemma setTimeout_fields [simp]:
  "bindings (snd (setTimeout h d s)) = bindings s"
  "onSequenceUpdate (snd (setTimeout h d s)) = onSequenceUpdate s"
  "flushInterval (snd (setTimeout h d s)) = flushInterval s"
  "currentSequence (snd (setTimeout h d s)) = currentSequence s"
  "prevBestMatchCommand (snd (setTimeout h d s)) = prevBestMatchCommand s"
  "filtered (snd (setTimeout h d s)) = filtered s"
  "listening (snd (setTimeout h d s)) = listening s"
  "invoked (snd (setTimeout h d s)) = invoked s"
  "logged (snd (setTimeout h d s)) = logged s"
  "notified (snd (setTimeout h d s)) = notified s"
  "timeouts (snd (setTimeout h d s)) = timeouts s @ [(nextTimeoutId s, h, d)]"
  "fst (setTimeout h d s) = nextTimeoutId s"
  by (simp_all add: setTimeout_def)

lemma handleKeydown_fields [simp]:
  "bindings (handleKeydown stringify throws e s) = bindings s"
  "onSequenceUpdate (handleKeydown stringify throws e s) = onSequenceUpdate s"
  "flushInterval (handleKeydown stringify throws e s) = flushInterval s"
  "listening (handleKeydown stringify throws e s) = listening s"
proof (induction stringify throws e s rule: handleKeydown.induct)
  case (1 stringify throws e s)
  {
    case 1
    show ?case
      apply (subst handleKeydown.simps)
      using "1.IH"(1) by (simp add: Let_def split_beta)
  next
    case 2
    show ?case
      apply (subst handleKeydown.simps)
      using "1.IH"(2) by (simp add: Let_def split_beta)
  next
    case 3
    show ?case
      apply (subst handleKeydown.simps)
      using "1.IH"(3) by (simp add: Let_def split_beta)
  next
    case 4
    show ?case
      apply (subst handleKeydown.simps)
      using "1.IH"(4) by (simp add: Let_def split_beta)
  }
qed

lemma fireTimeout_fields [simp]:
  "bindings (fireTimeout throws i s) = bindings s"
  "onSequenceUpdate (fireTimeout throws i s) = onSequenceUpdate s"
  "flushInterval (fireTimeout throws i s) = flushInterval s"
  "listening (fireTimeout throws i s) = listening s"
  by (simp_all add: fireTimeout_def Let_def split: option.splits timeout_handler.splits)

lemma reachable_flushInterval:
  "reachable P N stringify throws options s \<Longrightarrow>
     flushInterval s = flushInterval (Mousetrap_new options :: ('c, 'x) mousetrap)"
  for s :: "('c, 'x) mousetrap"
  by (induction rule: reachable.induct)
    (simp_all add: bind_def unbind_def reset_def dispatchEvent_def split_beta)

lemma flushInterval_new:
  "flushInterval (Mousetrap_new options) =
     (case options of None \<Rightarrow> 1000
      | Some opts \<Rightarrow> (case opt_flushInterval opts of None \<Rightarrow> 1000 | Some n \<Rightarrow> n))"
  by (simp add: Mousetrap_new_def split: option.splits)

section \<open>The examples are reachable states\<close>

lemma exampleD_DD_reachable:
  "reachable sampleParseSequence sampleNormalize sampleStringify sampleThrows None exampleD_DD"
  unfolding exampleD_DD_def by (intro reachable.intros)

lemma example_d_reachable:
  "reachable sampleParseSequence sampleNormalize sampleStringify sampleThrows None example_d"
  unfolding example_d_def by (intro reachable.intros exampleD_DD_reachable)

lemma example_g_reachable:
  "reachable sampleParseSequence sampleNormalize sampleStringify sampleThrows None example_g"
  unfolding example_g_def exampleGG_def by (intro reachable.intros)

lemma example_g_eval:
  "example_g =
     \<lparr>bindings = [(''gg'', 10)], onSequenceUpdate = False, flushInterval = 1000,
      currentSequence = ''g'', prevBestMatchCommand = None, filtered = [''gg''],
      timer = Some 0, timeouts = [(0, BackToInitial, 1000)], nextTimeoutId = 1,
      listening = True, invoked = [],
      logged = [Debug_binded [''gg''], Debug_sequence ''g'', Debug_candidates 1 [''gg'']],
      notified = []\<rparr>"
  by (simp add: example_g_def exampleGG_def sample_defs engine_defs)

section \<open>Idle states, and more evaluation\<close>

lemma idle_listening [simp]: "idle (s\<lparr>listening := b\<rparr>) = idle s"
  by (simp add: idle_def)

lemma idle_logger [simp]: "idle (logger x s) = idle s"
  by (simp add: idle_def)

lemma consistent_backToInitial_clear_idle:
  "consistent s \<Longrightarrow> idle (backToInitial (clearTimeout (timer s) s))"
  using consistent_clearTimeout[of s] by (simp add: idle_def)

lemma bind_state:
  "snd (bind P N kbs s) =
     emitChange (logger (Debug_binded (fst (snd (bindLoop P N kbs [] [] s))))
                   (snd (snd (bindLoop P N kbs [] [] s))))"
  by (simp add: bind_def split_beta)

lemma example_d_bind_x_eval:
  "example_d_bind_x =
     \<lparr>bindings = [(''d'', 10), (''dd'', 20), (''x'', 30)], onSequenceUpdate = False,
      flushInterval = 1000, currentSequence = ''d'',
      prevBestMatchCommand = Some (''d'', 10, mockEvent ''d''),
      filtered = [''d'', ''dd''], timer = Some 0,
      timeouts = [(0, PrevBestMatchCommand (''d'', 10, mockEvent ''d''), 1000)],
      nextTimeoutId = 1, listening = True, invoked = [],
      logged = [Debug_binded [''d'', ''dd''], Debug_sequence ''d'',
                Debug_candidates 2 [''d'', ''dd''], Debug_binded [''x'']],
      notified = []\<rparr>"
  by (simp add: example_d_bind_x_def example_d_eval sample_defs engine_defs)

lemma example_d_bind_x_report:
  "fst (bind sampleParseSequence sampleNormalize [(''x'', 30)] example_d) = []"
  by (simp add: sample_defs bind_def normalizeSequence_def split_beta Let_def)

section \<open>The loops of bind and unbind in closed form\<close>

lemma bindLoop_errorMap:
  "map_of (fst (bindLoop P N kbs em sq s)) q =
     (if q \<in> fst ` set kbs \<and> isl (normalizeSequence P N q)
      then Some (projl (normalizeSequence P N q)) else map_of em q)"
proof (induction P N kbs em sq s rule: bindLoop.induct)
  case (1 P N em sq s)
  then show ?case by simp
next
  case (2 P N seq cmd rest em sq s)
  show ?case
  proof (cases "normalizeSequence P N seq")
    case (Inl errors)
    then show ?thesis using "2.IH"(1)[OF Inl] by (auto simp add: update_conv')
  next
    case (Inr n)
    then show ?thesis using "2.IH"(2)[OF Inr refl refl] by (auto simp add: Let_def)
  qed
qed

lemma bindLoop_errorMap_Nil:
  "fst (bindLoop P N kbs em sq s) = [] \<longleftrightarrow>
     em = [] \<and> (\<forall>q \<in> fst ` set kbs. \<not> isl (normalizeSequence P N q))"
proof (induction P N kbs em sq s rule: bindLoop.induct)
  case (1 P N em sq s)
  then show ?case by simp
next
  case (2 P N seq cmd rest em sq s)
  show ?case
  proof (cases "normalizeSequence P N seq")
    case (Inl errors)
    then show ?thesis using "2.IH"(1)[OF Inl] by auto
  next
    case (Inr n)
    then show ?thesis using "2.IH"(2)[OF Inr refl refl] by (auto simp add: Let_def)
  qed
qed

lemma bindLoop_bindings:
  "map_of (bindings (snd (snd (bindLoop P N kbs em sq s)))) k =
     (if [cmd. (seq, cmd) \<leftarrow> kbs, normalizeSequence P N seq = Inr k] = []
      then map_of (bindings s) k
      else Some (last [cmd. (seq, cmd) \<leftarrow> kbs, normalizeSequence P N seq = Inr k]))"
proof (induction P N kbs em sq s rule: bindLoop.induct)
  case (1 P N em sq s)
  then show ?case by simp
next
  case (2 P N seq cmd rest em sq s)
  show ?case
  proof (cases "normalizeSequence P N seq")
    case (Inl errors)
    then show ?thesis using "2.IH"(1)[OF Inl] by simp
  next
    case (Inr n)
    then show ?thesis using "2.IH"(2)[OF Inr refl refl]
      by (auto simp add: Let_def update_conv')
  qed
qed

lemma not_isl_iff: "\<not> isl x \<longleftrightarrow> (\<exists>n. x = Inr n)"
  by (cases x) simp_all

lemma unbindLoop_bindings:
  "bindings (unbindLoop P N qs s) =
     filter (\<lambda>(k, c). \<not> (\<exists>q \<in> set qs. normalizeSequence P N q = Inr k)) (bindings s)"
proof (induction qs arbitrary: s)
  case Nil
  then show ?case by simp
next
  case (Cons q qs)
  show ?case
    by (cases "normalizeSequence P N q")
      (auto simp add: Cons.IH AList.delete_eq intro!: filter_cong)
qed

lemma unbindLoop_filtered:
  "filtered (unbindLoop P N qs s) =
     filter (\<lambda>k. \<not> (\<exists>q \<in> set qs. normalizeSequence P N q = Inr k)) (filtered s)"
proof (induction qs arbitrary: s)
  case Nil
  then show ?case by simp
next
  case (Cons q qs)
  show ?case
    by (cases "normalizeSequence P N q")
      (auto simp add: Cons.IH set_delete_def removeAll_filter_not_eq intro!: filter_cong)
qed

lemma unbindLoop_all_fail:
  "\<forall>q \<in> set qs. isl (normalizeSequence P N q) \<Longrightarrow> unbindLoop P N qs s = s"
  by (induction qs arbitrary: s) (auto split: sum.splits)

lemma sample_normalizeSequence:
  "normalizeSequence sampleParseSequence sampleNormalize ''a<'' = Inl [InvalidSequenceError]"
  "normalizeSequence sampleParseSequence sampleNormalize ''?y'' = Inl [InvalidKeyError]"
  "normalizeSequence sampleParseSequence sampleNormalize ''x'' = Inr ''x''"
  "normalizeSequence sampleParseSequence sampleNormalize ''d'' = Inr ''d''"
  "normalizeSequence sampleParseSequence sampleNormalize ''dd'' = Inr ''dd''"
  "normalizeSequence sampleParseSequence sampleNormalize ''zz'' = Inr ''zz''"
  by (simp_all add: normalizeSequence_def sampleParseSequence_def sampleNormalize_def)

section \<open>The log does not steer the engine\<close>

lemma narrow_notified:
  "notified (narrow v e s) =
     (if v \<noteq> [] \<and> onSequenceUpdate s then notified s @ [currentSequence s @ v] else notified s)"
  by (simp add: narrow_def Let_def split_beta set_currentSequence_def)

lemma backToInitial_notified:
  "notified (backToInitial s) =
     (if currentSequence s \<noteq> [] \<and> onSequenceUpdate s then notified s @ [[]] else notified s)"
  by (simp add: backToInitial_def Let_def set_currentSequence_def)

lemma runBestMatch_notified:
  "notified (runBestMatch throws m s) =
     (if currentSequence s \<noteq> [] \<and> onSequenceUpdate s then notified s @ [[]] else notified s)"
  by (simp add: runBestMatch_def Let_def split_beta backToInitial_notified split: option.splits)

lemma same_but_log_iff:
  fixes s t :: "('c, 'x) mousetrap"
  shows "s\<lparr>logged := []\<rparr> = t\<lparr>logged := []\<rparr> \<longleftrightarrow>
     bindings s = bindings t \<and> onSequenceUpdate s = onSequenceUpdate t
     \<and> flushInterval s = flushInterval t \<and> currentSequence s = currentSequence t
     \<and> prevBestMatchCommand s = prevBestMatchCommand t \<and> filtered s = filtered t
     \<and> timer s = timer t \<and> timeouts s = timeouts t \<and> nextTimeoutId s = nextTimeoutId t
     \<and> listening s = listening t \<and> invoked s = invoked t \<and> notified s = notified t"
  by (cases s, cases t) auto

lemma same_but_logD:
  fixes s t :: "('c, 'x) mousetrap"
  assumes "s\<lparr>logged := []\<rparr> = t\<lparr>logged := []\<rparr>"
  shows "bindings s = bindings t" "onSequenceUpdate s = onSequenceUpdate t"
    "flushInterval s = flushInterval t" "currentSequence s = currentSequence t"
    "prevBestMatchCommand s = prevBestMatchCommand t" "filtered s = filtered t"
    "timer s = timer t" "timeouts s = timeouts t" "nextTimeoutId s = nextTimeoutId t"
    "listening s = listening t" "invoked s = invoked t" "notified s = notified t"
  using assms[unfolded same_but_log_iff] by simp_all

lemma clearTimeout_same_but_log:
  assumes "s\<lparr>logged := []\<rparr> = t\<lparr>logged := []\<rparr>"
  shows "(clearTimeout (timer s) s)\<lparr>logged := []\<rparr> = (clearTimeout (timer t) t)\<lparr>logged := []\<rparr>"
proof -
  note f = same_but_logD[OF assms]
  show ?thesis
    by (rule mousetrap.equality) (use f in \<open>simp_all add: clearTimeout_timeouts split: option.splits\<close>)
qed

lemma backToInitial_same_but_log:
  assumes "s\<lparr>logged := []\<rparr> = t\<lparr>logged := []\<rparr>"
  shows "(backToInitial s)\<lparr>logged := []\<rparr> = (backToInitial t)\<lparr>logged := []\<rparr>"
proof -
  note f = same_but_logD[OF assms]
  show ?thesis
    by (rule mousetrap.equality)
      (use f in \<open>simp_all add: clearTimeout_timeouts backToInitial_notified split: option.splits\<close>)
qed

lemma runBestMatch_same_but_log:
  assumes "s\<lparr>logged := []\<rparr> = t\<lparr>logged := []\<rparr>"
  shows "(runBestMatch throws m s)\<lparr>logged := []\<rparr> = (runBestMatch throws' m t)\<lparr>logged := []\<rparr>"
proof -
  note f = same_but_logD[OF assms]
  show ?thesis
    by (rule mousetrap.equality)
      (use f in \<open>simp_all add: clearTimeout_timeouts runBestMatch_notified split: option.splits\<close>)
qed

lemma narrow_same_but_log:
  assumes "s\<lparr>logged := []\<rparr> = t\<lparr>logged := []\<rparr>"
  shows "(narrow v e s)\<lparr>logged := []\<rparr> = (narrow v e t)\<lparr>logged := []\<rparr>"
proof -
  note f = same_but_logD[OF assms]
  have 1: "filtered (narrow v e s) = filtered (narrow v e t)"
    unfolding narrow_filtered using f by simp
  have 2: "prevBestMatchCommand (narrow v e s) = prevBestMatchCommand (narrow v e t)"
    unfolding narrow_prev 1 using f by (simp split: option.splits)
  show ?thesis
    by (rule mousetrap.equality) (use f 1 2 in \<open>simp_all add: narrow_notified\<close>)
qed

lemma arm_same_but_log:
  assumes "s\<lparr>logged := []\<rparr> = t\<lparr>logged := []\<rparr>"
  shows "((snd (setTimeout h d s))\<lparr>timer := Some (fst (setTimeout h d s))\<rparr>)\<lparr>logged := []\<rparr>
         = ((snd (setTimeout h d t))\<lparr>timer := Some (fst (setTimeout h d t))\<rparr>)\<lparr>logged := []\<rparr>"
proof -
  note f = same_but_logD[OF assms]
  show ?thesis
    by (rule mousetrap.equality) (use f in \<open>simp_all add: setTimeout_def\<close>)
qed

lemma handleKeydown_same_but_log:
  "s\<lparr>logged := []\<rparr> = t\<lparr>logged := []\<rparr> \<Longrightarrow>
     (handleKeydown stringify throws e s)\<lparr>logged := []\<rparr>
       = (handleKeydown stringify throws' e t)\<lparr>logged := []\<rparr>"
proof (induction stringify throws e s arbitrary: t rule: handleKeydown.induct)
  case (1 stringify throws e s)
  let ?s0 = "clearTimeout (timer s) s" and ?t0 = "clearTimeout (timer t) t"
  let ?s1 = "narrow (stringify e) e ?s0" and ?t1 = "narrow (stringify e) e ?t0"
  have e0: "?s0\<lparr>logged := []\<rparr> = ?t0\<lparr>logged := []\<rparr>"
    by (rule clearTimeout_same_but_log[OF "1.prems"])
  have e1: "?s1\<lparr>logged := []\<rparr> = ?t1\<lparr>logged := []\<rparr>"
    by (rule narrow_same_but_log[OF e0])
  have f: "filtered ?t1 = filtered ?s1" "prevBestMatchCommand ?t1 = prevBestMatchCommand ?s1"
    "flushInterval ?t1 = flushInterval ?s1"
    using same_but_logD[OF e1] by simp_all
  note b0 = backToInitial_same_but_log[OF e0]
  note b1 = backToInitial_same_but_log[OF e1]
  note r1 = runBestMatch_same_but_log[OF e1, of throws _ throws']
  note a1 = arm_same_but_log[OF e1]
  show ?case
  proof (cases "isTrusted e \<and> stringify e \<noteq> [] \<and> \<not> isComposing e")
    case False
    then show ?thesis
      apply (subst handleKeydown.simps[of stringify throws e s])
      apply (subst handleKeydown.simps[of stringify throws' e t])
      using "1.prems" b0 by (auto simp add: Let_def)
  next
    case True
    show ?thesis
    proof (cases "prevBestMatchCommand ?s1")
      case None
      then show ?thesis
        apply (subst handleKeydown.simps[of stringify throws e s])
        apply (subst handleKeydown.simps[of stringify throws' e t])
        using True f b1 a1 by (simp add: Let_def split_beta)
    next
      case (Some m)
      show ?thesis
      proof (cases "length (filtered ?s1) < 2")
        case False
        then show ?thesis
          apply (subst handleKeydown.simps[of stringify throws e s])
          apply (subst handleKeydown.simps[of stringify throws' e t])
          using True Some f a1 b1 by (simp add: Let_def split_beta)
      next
        case run: True
        show ?thesis
        proof (cases "length (filtered ?s1) = 0")
          case replay: True
          have "(handleKeydown stringify throws e (runBestMatch throws m ?s1))\<lparr>logged := []\<rparr>
                = (handleKeydown stringify throws' e (runBestMatch throws' m ?t1))\<lparr>logged := []\<rparr>"
            using True run replay Some
            by (intro "1.IH"[OF _ refl _ refl _ refl refl _ _ _ r1]) simp_all
          then show ?thesis
            apply (subst handleKeydown.simps[of stringify throws e s])
            apply (subst handleKeydown.simps[of stringify throws' e t])
            using True run replay Some f b1 by (simp add: Let_def)
        next
          case False
          then show ?thesis
            apply (subst handleKeydown.simps[of stringify throws e s])
            apply (subst handleKeydown.simps[of stringify throws' e t])
            using True run Some f r1 b1 a1 by (simp add: Let_def split_beta)
        qed
      qed
    qed
  qed
qed

lemma exampleX_eval:
  "exampleX =
     \<lparr>bindings = [(''x'', 13)], onSequenceUpdate = False, flushInterval = 1000,
      currentSequence = [], prevBestMatchCommand = None, filtered = [''x''],
      timer = None, timeouts = [], nextTimeoutId = 0, listening = True, invoked = [],
      logged = [Debug_binded [''x'']], notified = []\<rparr>"
  by (simp add: exampleX_def sample_defs engine_defs)

lemma example_x_eval:
  "example_x =
     \<lparr>bindings = [(''x'', 13)], onSequenceUpdate = False, flushInterval = 1000,
      currentSequence = [], prevBestMatchCommand = None, filtered = [''x''],
      timer = None, timeouts = [], nextTimeoutId = 0, listening = True,
      invoked = [(13, mockEvent ''x'')],
      logged = [Debug_binded [''x''], Debug_sequence ''x'', Debug_candidates 1 [''x''],
                Debug_run ''x'', Error_thrown ''boom'', Debug_reset],
      notified = []\<rparr>"
  by (simp add: example_x_def exampleX_eval sample_defs engine_defs)

lemma example_x_handle:
  "example_x = handleKeydown sampleStringify sampleThrows (mockEvent ''x'') exampleX"
  by (simp add: example_x_def dispatchEvent_def exampleX_eval)

section \<open>Feeding the tokens of a bound sequence\<close>

lemma handleKeydown_accepted:
  assumes "isTrusted e" and "\<not> isComposing e" and "stringify e \<noteq> []"
  shows "handleKeydown stringify throws e s =
           (let s1 = narrow (stringify e) e (clearTimeout (timer s) s);
                size = length (filtered s1)
            in if prevBestMatchCommand s1 \<noteq> None \<and> size < 2
               then (let s2 = runBestMatch throws (the (prevBestMatchCommand s1)) s1
                     in if size = 0 then handleKeydown stringify throws e s2 else s2)
               else if size = 0 then backToInitial s1
               else (snd (setTimeout (case prevBestMatchCommand s1 of
                                        Some m \<Rightarrow> PrevBestMatchCommand m
                                      | None \<Rightarrow> BackToInitial) (flushInterval s1) s1))
                      \<lparr>timer := Some (nextTimeoutId s1)\<rparr>)"
  using assms by (subst handleKeydown.simps) (simp add: Let_def split_beta)

lemma feed_last_token:
  assumes c: "consistent s"
    and b: "map_of (bindings s) S = Some C"
    and noext: "\<forall>k \<in> fst ` set (bindings s). prefix S k \<longrightarrow> k = S"
    and e: "isTrusted e" "\<not> isComposing e" "stringify e \<noteq> []"
    and S: "currentSequence s @ stringify e = S"
  shows "handleKeydown stringify throws e s =
           runBestMatch throws (S, C, e) (narrow (stringify e) e (clearTimeout (timer s) s))"
proof -
  let ?s1 = "narrow (stringify e) e (clearTimeout (timer s) s)"
  have k: "S \<in> fst ` set (bindings s)"
    using map_of_SomeD[OF b] by (force simp add: image_iff)
  have "set (filtered ?s1) = {k \<in> fst ` set (bindings s). prefix S k}"
    using narrow_filtered_consistent[OF c, of "stringify e" e] S by simp
  then have f: "set (filtered ?s1) = {S}"
    using noext k by auto
  have d: "distinct (filtered ?s1)"
    using consistentD(2)[OF consistent_narrow[OF c]] .
  have "length (filtered ?s1) = card (set (filtered ?s1))"
    using d by (simp add: distinct_card)
  then have l: "length (filtered ?s1) = 1"
    using f by simp
  have m: "S \<in> set (filtered s)"
    using consistentD(3)[OF c] k S by auto
  have ne: "filtered ?s1 \<noteq> []" using l by auto
  have p: "prevBestMatchCommand ?s1 = Some (S, C, e)"
    using ne m b S by (simp add: narrow_prev)
  show ?thesis
    using l p by (simp add: handleKeydown_accepted[where stringify = stringify and e = e, OF e] Let_def)
qed

lemma feed_inner_token:
  assumes c: "consistent s"
    and b: "map_of (bindings s) S = Some C"
    and e: "isTrusted e" "\<not> isComposing e" "stringify e \<noteq> []"
    and S: "currentSequence s @ stringify e @ rest = S" "rest \<noteq> []"
  shows "handleKeydown stringify throws e s =
           (snd (setTimeout (case prevBestMatchCommand (narrow (stringify e) e (clearTimeout (timer s) s)) of
                               Some m \<Rightarrow> PrevBestMatchCommand m
                             | None \<Rightarrow> BackToInitial)
                   (flushInterval s) (narrow (stringify e) e (clearTimeout (timer s) s))))
              \<lparr>timer := Some (nextTimeoutId s)\<rparr>"
proof -
  let ?s1 = "narrow (stringify e) e (clearTimeout (timer s) s)"
  let ?q = "currentSequence s @ stringify e"
  have k: "S \<in> fst ` set (bindings s)"
    using map_of_SomeD[OF b] by (force simp add: image_iff)
  have ne: "?q \<noteq> S" using S by auto
  have pre: "prefix ?q S" using S(1) by (auto simp add: prefix_def)
  have f: "set (filtered ?s1) = {k \<in> fst ` set (bindings s). prefix ?q k}"
    using narrow_filtered_consistent[OF c, of "stringify e" e] by simp
  then have sin: "S \<in> set (filtered ?s1)" using k pre by simp
  then have nn: "filtered ?s1 \<noteq> []" by auto
  then have n0: "length (filtered ?s1) \<noteq> 0" by simp
  have pv: "prevBestMatchCommand ?s1 =
              (if ?q \<in> set (filtered s)
               then (case map_of (bindings s) ?q of
                       Some command \<Rightarrow> Some (?q, command, e)
                     | None \<Rightarrow> None)
               else None)"
    unfolding narrow_prev using nn by (simp split: option.splits)
  have "\<not> (prevBestMatchCommand ?s1 \<noteq> None \<and> length (filtered ?s1) < 2)"
  proof
    assume a: "prevBestMatchCommand ?s1 \<noteq> None \<and> length (filtered ?s1) < 2"
    then have lt: "length (filtered ?s1) < 2" by simp
    obtain x xs where fx: "filtered ?s1 = x # xs"
      using nn by (cases "filtered ?s1") auto
    have "xs = []" using lt fx by (simp add: numeral_2_eq_2)
    with fx sin have fs: "filtered ?s1 = [S]" by simp
    have "map_of (bindings s) ?q \<noteq> None"
    proof
      assume "map_of (bindings s) ?q = None"
      then have "prevBestMatchCommand ?s1 = None" unfolding pv by simp
      with a show False by simp
    qed
    then have "?q \<in> fst ` set (bindings s)"
      by (simp add: map_of_eq_None_iff)
    then have "?q \<in> set (filtered ?s1)" unfolding f by simp
    with fs ne show False by simp
  qed
  then have nb: "(prevBestMatchCommand ?s1 \<noteq> None \<and> length (filtered ?s1) < 2) = False"
    by blast
  have nz: "(length (filtered ?s1) = 0) = False" using n0 by blast
  have "handleKeydown stringify throws e s =
          (snd (setTimeout (case prevBestMatchCommand ?s1 of
                               Some m \<Rightarrow> PrevBestMatchCommand m
                             | None \<Rightarrow> BackToInitial)
                   (flushInterval ?s1) ?s1))\<lparr>timer := Some (nextTimeoutId ?s1)\<rparr>"
    unfolding handleKeydown_accepted[where stringify = stringify and e = e and s = s, OF e]
    by (simp only: Let_def nb nz if_False)
  then show ?thesis by simp
qed

lemma feed_tokens:
  assumes "consistent s" and "listening s"
    and "map_of (bindings s) S = Some C"
    and "\<forall>k \<in> fst ` set (bindings s). prefix S k \<longrightarrow> k = S"
    and "es \<noteq> []"
    and "\<forall>e \<in> set es. isTrusted e \<and> \<not> isComposing e \<and> stringify e \<noteq> []"
    and "currentSequence s @ concat (map stringify es) = S"
  shows "invoked (foldl (\<lambda>s e. dispatchEvent stringify throws e s) s es) = invoked s @ [(C, last es)]
         \<and> idle (foldl (\<lambda>s e. dispatchEvent stringify throws e s) s es)
         \<and> bindings (foldl (\<lambda>s e. dispatchEvent stringify throws e s) s es) = bindings s"
  using assms
proof (induction es arbitrary: s)
  case Nil
  then show ?case by simp
next
  case (Cons e es)
  have e: "isTrusted e" "\<not> isComposing e" "stringify e \<noteq> []"
    using Cons.prems(6) by simp_all
  let ?s1 = "narrow (stringify e) e (clearTimeout (timer s) s)"
  have d: "dispatchEvent stringify throws e s = handleKeydown stringify throws e s"
    using Cons.prems(2) by (simp add: dispatchEvent_def)
  show ?case
  proof (cases "es = []")
    case True
    have h: "handleKeydown stringify throws e s = runBestMatch throws (S, C, e) ?s1"
      using feed_last_token[where stringify = stringify and e = e, OF Cons.prems(1,3,4) e]
        Cons.prems(7) True by simp
    have "idle (runBestMatch throws (S, C, e) ?s1)"
      by (rule consistent_runBestMatch_idle[OF consistent_narrow[OF Cons.prems(1)]])
    then show ?thesis using True by (simp add: d h)
  next
    case False
    have r: "concat (map stringify es) \<noteq> []"
      using False Cons.prems(6) by (cases es) auto
    let ?s' = "handleKeydown stringify throws e s"
    have h: "?s' =
           (snd (setTimeout (case prevBestMatchCommand ?s1 of
                               Some m \<Rightarrow> PrevBestMatchCommand m
                             | None \<Rightarrow> BackToInitial)
                   (flushInterval s) ?s1))\<lparr>timer := Some (nextTimeoutId s)\<rparr>"
      using feed_inner_token[where stringify = stringify and e = e, OF Cons.prems(1,3) e _ r]
        Cons.prems(7) by simp
    have c': "consistent ?s'" by (rule consistent_handleKeydown[OF Cons.prems(1)])
    have i: "invoked ?s' = invoked s" and q: "currentSequence ?s' = currentSequence s @ stringify e"
      by (simp_all add: h)
    have "invoked (foldl (\<lambda>s e. dispatchEvent stringify throws e s) ?s' es) = invoked ?s' @ [(C, last es)]
         \<and> idle (foldl (\<lambda>s e. dispatchEvent stringify throws e s) ?s' es)
         \<and> bindings (foldl (\<lambda>s e. dispatchEvent stringify throws e s) ?s' es) = bindings ?s'"
      using Cons.prems False q by (intro Cons.IH c') simp_all
    then show ?thesis using False by (simp add: d i)
  qed
qed

lemma bind_single:
  assumes "normalizeSequence P N q = Inr S"
  shows "fst (bind P N [(q, c)] s) = []"
    and "bindings (snd (bind P N [(q, c)] s)) = AList.update S c (bindings s)"
    and "listening (snd (bind P N [(q, c)] s))"
    and "currentSequence (snd (bind P N [(q, c)] s)) = currentSequence s"
    and "invoked (snd (bind P N [(q, c)] s)) = invoked s"
  using assms by (simp_all add: bind_def Let_def emitChange_def)

lemma exampleDD_D_eval:
  "exampleDD_D =
     \<lparr>bindings = [(''dd'', 20), (''d'', 10)], onSequenceUpdate = False, flushInterval = 1000,
      currentSequence = [], prevBestMatchCommand = None, filtered = [''dd'', ''d''],
      timer = None, timeouts = [], nextTimeoutId = 0, listening = True, invoked = [],
      logged = [Debug_binded [''dd''], Debug_binded [''d'']], notified = []\<rparr>"
  by (simp add: exampleDD_D_def exampleDD_def sample_defs engine_defs)

lemma exampleDD_idle: "idle exampleDD"
  by (simp add: exampleDD_def sample_defs engine_defs idle_def)

section \<open>Claims\<close>

subsection \<open>Prefix-shadow replay\<close>

text \<open>
  Claim C1. While a key token is processed, if the Best-Match Holder is non-empty
  and no candidate survives the filter pass, the engine invokes the held
  command, resets, and runs the same algorithm again with the same event on
  the state that reset left: the table unchanged, the buffer empty, the holder
  empty, every bound sequence a candidate again and (in a consistent state) no
  timer alive. The instance below it is the case of the claim: with exactly
  \<open>d\<close> and \<open>dd\<close> bound, the keys \<open>d\<close> then \<open>a\<close> call \<open>d\<close>'s command once, and
  \<open>a\<close> goes through a pass of its own (the log shows the pass on \<open>a\<close> after the
  reset) before the engine is idle again.
\<close>

theorem prefix_shadow_replay:
  assumes "isTrusted e" and "\<not> isComposing e" and "stringify e \<noteq> []"
    and "prevBestMatchCommand s = Some m"
    and "filtered (narrow (stringify e) e (clearTimeout (timer s) s)) = []"
  shows "handleKeydown stringify throws e s =
           handleKeydown stringify throws e
             (runBestMatch throws m (narrow (stringify e) e (clearTimeout (timer s) s)))
         \<and> invoked (runBestMatch throws m (narrow (stringify e) e (clearTimeout (timer s) s)))
             = invoked s @ [(fst (snd m), snd (snd m))]
         \<and> bindings (runBestMatch throws m (narrow (stringify e) e (clearTimeout (timer s) s)))
             = bindings s
         \<and> currentSequence (runBestMatch throws m (narrow (stringify e) e (clearTimeout (timer s) s))) = []
         \<and> prevBestMatchCommand (runBestMatch throws m (narrow (stringify e) e (clearTimeout (timer s) s))) = None
         \<and> filtered (runBestMatch throws m (narrow (stringify e) e (clearTimeout (timer s) s)))
             = map fst (bindings s)
         \<and> (consistent s \<longrightarrow>
              timeouts (runBestMatch throws m (narrow (stringify e) e (clearTimeout (timer s) s))) = [])"
proof -
  let ?s1 = "narrow (stringify e) e (clearTimeout (timer s) s)"
  have p: "prevBestMatchCommand ?s1 = Some m"
    using assms(4,5) by (simp add: narrow_prev)
  then have q: "prevBestMatchCommand ?s1 \<noteq> None" and r: "the (prevBestMatchCommand ?s1) = m"
    by simp_all
  have "handleKeydown stringify throws e s = handleKeydown stringify throws e (runBestMatch throws m ?s1)"
    apply (subst handleKeydown.simps)
    using assms(1,2,3,5) q r by (simp only: Let_def if_True if_False not_not refl list.size simp_thms) simp
  then show ?thesis by (simp add: consistent_clearTimeout)
qed

theorem prefix_shadow_replay_witness:
  "isTrusted (mockEvent ''a'') \<and> \<not> isComposing (mockEvent ''a'')
   \<and> sampleStringify (mockEvent ''a'') \<noteq> []
   \<and> map fst (bindings exampleD_DD) = [''d'', ''dd'']
   \<and> invoked example_d = []
   \<and> prevBestMatchCommand example_d = Some (''d'', 10, mockEvent ''d'')
   \<and> filtered (narrow ''a'' (mockEvent ''a'') (clearTimeout (timer example_d) example_d)) = []
   \<and> consistent example_d
   \<and> example_d_a =
       handleKeydown sampleStringify sampleThrows (mockEvent ''a'')
         (runBestMatch sampleThrows (''d'', 10, mockEvent ''d'')
            (narrow ''a'' (mockEvent ''a'') (clearTimeout (timer example_d) example_d)))
   \<and> idle (runBestMatch sampleThrows (''d'', 10, mockEvent ''d'')
            (narrow ''a'' (mockEvent ''a'') (clearTimeout (timer example_d) example_d)))
   \<and> invoked example_d_a = [(10, mockEvent ''d'')]
   \<and> logged example_d_a
       = logged example_d
         @ [Debug_sequence ''da'', Debug_candidates 0 [], Debug_run ''d'', Debug_reset,
            Debug_sequence ''a'', Debug_candidates 0 [], Debug_reset]
   \<and> idle example_d_a"
proof -
  have n: "filtered (narrow ''a'' (mockEvent ''a'') (clearTimeout (timer example_d) example_d)) = []"
    by (simp add: narrow_filtered example_d_eval)
  have p: "prevBestMatchCommand example_d = Some (''d'', 10, mockEvent ''d'')"
    by (simp add: example_d_eval)
  have m: "isTrusted (mockEvent ''a'') \<and> \<not> isComposing (mockEvent ''a'')
             \<and> sampleStringify (mockEvent ''a'') = ''a''"
    by (simp add: sample_defs)
  have c: "consistent example_d"
    by (simp add: example_d_eval consistent_def startsWith_def)
  have r: "example_d_a =
       handleKeydown sampleStringify sampleThrows (mockEvent ''a'')
         (runBestMatch sampleThrows (''d'', 10, mockEvent ''d'')
            (narrow ''a'' (mockEvent ''a'') (clearTimeout (timer example_d) example_d)))
       \<and> idle (runBestMatch sampleThrows (''d'', 10, mockEvent ''d'')
            (narrow ''a'' (mockEvent ''a'') (clearTimeout (timer example_d) example_d)))"
    using prefix_shadow_replay[of "mockEvent ''a''" sampleStringify example_d
        "(''d'', 10, mockEvent ''d'')" sampleThrows] m n p c
    by (simp add: example_d_a_handle idle_def)
  have i: "invoked example_d = [] \<and> map fst (bindings exampleD_DD) = [''d'', ''dd'']"
    by (simp add: example_d_eval exampleD_DD_eval)
  have f: "invoked example_d_a = [(10, mockEvent ''d'')]
     \<and> logged example_d_a
       = logged example_d
         @ [Debug_sequence ''da'', Debug_candidates 0 [], Debug_run ''d'', Debug_reset,
            Debug_sequence ''a'', Debug_candidates 0 [], Debug_reset]
     \<and> idle example_d_a"
    by (simp add: example_d_a_eval example_d_eval idle_def)
  from m n p c r i f show ?thesis by simp
qed

subsection \<open>Termination of a turn\<close>

lemma handleKeydown_fresh_passes:
  assumes "prevBestMatchCommand s = None"
  shows "passes (handleKeydown stringify throws e s) \<le> Suc (passes s)"
proof -
  have "filtered (narrow (stringify e) e (clearTimeout (timer s) s)) = [] \<Longrightarrow>
        prevBestMatchCommand (narrow (stringify e) e (clearTimeout (timer s) s)) = None"
    using assms by (simp add: narrow_prev)
  then show ?thesis
    by (subst handleKeydown.simps) (auto simp add: Let_def split_beta)
qed

text \<open>
  Claim C10. Processing one key token always terminates (\<open>handleKeydown\<close> is a
  total function: its recursion was shown to end above), and it enters the
  token-processing algorithm at most twice, that is, replays at most once;
  from a state whose Best-Match Holder is empty, as the reset before a replay
  leaves it, it enters it at most once, so a replayed pass never replays again.
\<close>

theorem handleKeydown_replays_at_most_once:
  "passes (handleKeydown stringify throws e s) \<le> passes s + 2
   \<and> (prevBestMatchCommand s = None \<longrightarrow> passes (handleKeydown stringify throws e s) \<le> passes s + 1)"
proof
  show "passes (handleKeydown stringify throws e s) \<le> passes s + 2"
    using handleKeydown_fresh_passes[of "runBestMatch throws
        (the (prevBestMatchCommand (narrow (stringify e) e (clearTimeout (timer s) s))))
        (narrow (stringify e) e (clearTimeout (timer s) s))" stringify throws e]
    by (subst handleKeydown.simps) (auto simp add: Let_def split_beta)
next
  show "prevBestMatchCommand s = None \<longrightarrow> passes (handleKeydown stringify throws e s) \<le> passes s + 1"
    using handleKeydown_fresh_passes[of s stringify throws e] by simp
qed

theorem handleKeydown_replays_at_most_once_witness:
  "prevBestMatchCommand exampleD_DD = None
   \<and> passes (handleKeydown sampleStringify sampleThrows (mockEvent ''d'') exampleD_DD)
       = passes exampleD_DD + 1
   \<and> passes (handleKeydown sampleStringify sampleThrows (mockEvent ''a'') example_d)
       = passes example_d + 2"
  using handleKeydown_replays_at_most_once[of sampleStringify sampleThrows "mockEvent ''d''" exampleD_DD]
  unfolding example_d_handle[symmetric] example_d_a_handle[symmetric]
  by (simp add: example_d_a_eval example_d_eval exampleD_DD_eval passes_def)

subsection \<open>One timer\<close>

text \<open>
  Claim C9. In every state the object can reach, at most one timer is alive,
  and it is the one \<open>this.timer\<close> names. Hence the \<open>clearTimeout(this.timer)\<close>
  that opens the processing of a key token, and the one in every reset
  (\<open>backToInitial\<close>, and the public \<open>reset\<close>), leave no timer alive; the state
  in which \<open>handleKeydown\<close> may arm a new timer, after the filter pass, has none
  alive; and after the event there is again at most one.
\<close>

theorem at_most_one_pending_timer:
  assumes "reachable parseSequence normalizeKey stringify throws options s"
  shows "length (timeouts s) \<le> 1
         \<and> (\<forall>t \<in> set (timeouts s). timer s = Some (fst t))
         \<and> timeouts (clearTimeout (timer s) s) = []
         \<and> timeouts (backToInitial s) = []
         \<and> timeouts (reset s) = []
         \<and> timeouts (narrow (stringify e) e (clearTimeout (timer s) s)) = []
         \<and> length (timeouts (dispatchEvent stringify throws e s)) \<le> 1"
proof -
  have c: "consistent s" by (rule reachable_consistent[OF assms])
  have c': "consistent (dispatchEvent stringify throws e s)"
    by (rule consistent_dispatchEvent[OF c])
  have r: "consistent (reset s)" by (rule consistent_reset[OF c])
  have "timeouts (reset s) = []"
    using consistent_clearTimeout[OF c]
    by (simp add: reset_def emitChange_def Let_def clearTimeout_timeouts split: option.splits)
  then show ?thesis
    using consistent_timeouts[OF c] consistent_timeouts[OF c'] consistent_clearTimeout[OF c]
    by auto
qed

theorem at_most_one_pending_timer_witness:
  "reachable sampleParseSequence sampleNormalize sampleStringify sampleThrows None example_d
   \<and> length (timeouts example_d) = 1
   \<and> timer example_d = Some 0
   \<and> timeouts (clearTimeout (timer example_d) example_d) = []
   \<and> timeouts (narrow ''a'' (mockEvent ''a'') (clearTimeout (timer example_d) example_d)) = []
   \<and> timeouts example_d_a = []"
proof -
  note t = at_most_one_pending_timer[OF example_d_reachable, of "mockEvent ''a''"]
  have 1: "length (timeouts example_d) = 1 \<and> timer example_d = Some 0 \<and> timeouts example_d_a = []"
    by (simp add: example_d_eval example_d_a_eval)
  have 2: "timeouts (clearTimeout (timer example_d) example_d) = []"
    using t by simp
  have 3: "timeouts (narrow ''a'' (mockEvent ''a'') (clearTimeout (timer example_d) example_d)) = []"
    using t by (simp add: sample_defs)
  from example_d_reachable 1 2 3 show ?thesis by blast
qed

subsection \<open>Expiry of the timer\<close>

text \<open>
  Claim C3. When a pending timer of a reachable state expires: if the
  Best-Match Holder is non-empty the held command is invoked (once, with the
  event it was captured with) and the engine is idle afterwards; if the holder
  is empty nothing is invoked and the engine is idle afterwards. The delay the
  timer was armed with is the configured \<open>flushInterval\<close>, and 1000 when the
  options give none.
\<close>

theorem timer_expiry:
  assumes "reachable parseSequence normalizeKey stringify throws options s"
    and "(i, handler, delay) \<in> set (timeouts s)"
  shows "delay = (case options of None \<Rightarrow> 1000
                  | Some opts \<Rightarrow> (case opt_flushInterval opts of None \<Rightarrow> 1000 | Some n \<Rightarrow> n))
         \<and> (case prevBestMatchCommand s of
               Some m \<Rightarrow> invoked (fireTimeout throws i s) = invoked s @ [(fst (snd m), snd (snd m))]
             | None \<Rightarrow> invoked (fireTimeout throws i s) = invoked s)
         \<and> idle (fireTimeout throws i s)
         \<and> bindings (fireTimeout throws i s) = bindings s"
proof -
  have c: "consistent s" by (rule reachable_consistent[OF assms(1)])
  from consistent_timeouts[OF c] assms(2)
  have t: "timeouts s = [(i, handler, delay)]" and d: "delay = flushInterval s"
    and h: "handler = (case prevBestMatchCommand s of
                    Some m \<Rightarrow> PrevBestMatchCommand m | None \<Rightarrow> BackToInitial)"
    by auto
  have c0: "consistent (s\<lparr>timeouts := []\<rparr>)"
    using c by (simp add: consistent_iff)
  have f: "fireTimeout throws i s =
             (case prevBestMatchCommand s of
                Some m \<Rightarrow> runBestMatch throws m (s\<lparr>timeouts := []\<rparr>)
              | None \<Rightarrow> backToInitial (s\<lparr>timeouts := []\<rparr>))"
    using t h by (simp add: fireTimeout_def Let_def split: option.splits)
  have "delay = (case options of None \<Rightarrow> 1000
                  | Some opts \<Rightarrow> (case opt_flushInterval opts of None \<Rightarrow> 1000 | Some n \<Rightarrow> n))"
    using d reachable_flushInterval[OF assms(1)] by (simp add: flushInterval_new)
  moreover have "idle (fireTimeout throws i s)"
    using consistent_runBestMatch_idle[OF c0] consistent_backToInitial_idle[OF c0]
    by (simp add: f split: option.splits)
  moreover have "(case prevBestMatchCommand s of
               Some m \<Rightarrow> invoked (fireTimeout throws i s) = invoked s @ [(fst (snd m), snd (snd m))]
             | None \<Rightarrow> invoked (fireTimeout throws i s) = invoked s)"
    by (simp add: f split: option.splits)
  ultimately show ?thesis by simp
qed

theorem timer_expiry_witness:
  "reachable sampleParseSequence sampleNormalize sampleStringify sampleThrows None example_d
   \<and> (0, PrevBestMatchCommand (''d'', 10, mockEvent ''d''), 1000) \<in> set (timeouts example_d)
   \<and> prevBestMatchCommand example_d = Some (''d'', 10, mockEvent ''d'')
   \<and> invoked example_d = []
   \<and> invoked (fireTimeout sampleThrows 0 example_d) = [(10, mockEvent ''d'')]
   \<and> idle (fireTimeout sampleThrows 0 example_d)
   \<and> reachable sampleParseSequence sampleNormalize sampleStringify sampleThrows None example_g
   \<and> (0, BackToInitial, 1000) \<in> set (timeouts example_g)
   \<and> prevBestMatchCommand example_g = None
   \<and> invoked (fireTimeout sampleThrows 0 example_g) = invoked example_g
   \<and> idle (fireTimeout sampleThrows 0 example_g)"
proof -
  have 1: "(0, PrevBestMatchCommand (''d'', 10, mockEvent ''d''), 1000) \<in> set (timeouts example_d)"
    and 2: "prevBestMatchCommand example_d = Some (''d'', 10, mockEvent ''d'')"
    and 3: "invoked example_d = []"
    by (simp_all add: example_d_eval)
  have 4: "(0, BackToInitial, 1000) \<in> set (timeouts example_g)"
    and 5: "prevBestMatchCommand example_g = None"
    by (simp_all add: example_g_eval)
  have 6: "invoked (fireTimeout sampleThrows 0 example_d) = [(10, mockEvent ''d'')]
           \<and> idle (fireTimeout sampleThrows 0 example_d)"
    using timer_expiry[OF example_d_reachable 1] 2 3 by simp
  have 7: "invoked (fireTimeout sampleThrows 0 example_g) = invoked example_g
           \<and> idle (fireTimeout sampleThrows 0 example_g)"
    using timer_expiry[OF example_g_reachable 4] 5 by simp
  from example_d_reachable example_g_reachable 1 2 3 4 5 6 7 show ?thesis by blast
qed

subsection \<open>Untrusted and composing events\<close>

text \<open>
  Claim C7, as stated, fails: an untrusted event does not force the Idle state.
  With \<open>d\<close> and \<open>dd\<close> bound and \<open>d\<close> typed, the buffer holds \<open>d\<close> and a timer is
  pending; an untrusted event (even one flagged as composing) returns at the
  first guard and leaves all of that in place.
\<close>

theorem untrusted_event_counterexample:
  "reachable sampleParseSequence sampleNormalize sampleStringify sampleThrows None example_d
   \<and> \<not> isTrusted untrustedEvent \<and> isComposing untrustedEvent
   \<and> dispatchEvent sampleStringify sampleThrows untrustedEvent example_d = example_d
   \<and> currentSequence (dispatchEvent sampleStringify sampleThrows untrustedEvent example_d) = ''d''
   \<and> timeouts (dispatchEvent sampleStringify sampleThrows untrustedEvent example_d)
       = [(0, PrevBestMatchCommand (''d'', 10, mockEvent ''d''), 1000)]
   \<and> \<not> idle (dispatchEvent sampleStringify sampleThrows untrustedEvent example_d)"
proof -
  have 1: "\<not> isTrusted untrustedEvent \<and> isComposing untrustedEvent"
    by (simp add: untrustedEvent_def)
  have 2: "dispatchEvent sampleStringify sampleThrows untrustedEvent example_d = example_d"
    using 1 by (simp add: dispatchEvent_def handleKeydown.simps)
  have 3: "currentSequence example_d = ''d''
     \<and> timeouts example_d = [(0, PrevBestMatchCommand (''d'', 10, mockEvent ''d''), 1000)]
     \<and> \<not> idle example_d"
    by (simp add: example_d_eval idle_def)
  from example_d_reachable 1 2 3 show ?thesis by simp
qed

text \<open>
  Claim C7, amended. In every reachable state, an event that is untrusted or
  flagged as composing invokes no command and leaves the table alone, and an
  idle engine stays idle. An untrusted event, one that does not stringify to a
  key token, or one that arrives while the listener is not registered, leaves
  the state unchanged; a trusted composing event that stringifies, delivered
  to the listener, forces the Idle state.
\<close>

theorem untrusted_and_composing_events:
  assumes "reachable parseSequence normalizeKey stringify throws options s"
    and "\<not> isTrusted e \<or> isComposing e"
  shows "invoked (dispatchEvent stringify throws e s) = invoked s
         \<and> bindings (dispatchEvent stringify throws e s) = bindings s
         \<and> (idle s \<longrightarrow> idle (dispatchEvent stringify throws e s))
         \<and> (\<not> isTrusted e \<or> stringify e = [] \<or> \<not> listening s
              \<longrightarrow> dispatchEvent stringify throws e s = s)
         \<and> (isTrusted e \<and> stringify e \<noteq> [] \<and> listening s
              \<longrightarrow> idle (dispatchEvent stringify throws e s))"
proof -
  have c: "consistent s" by (rule reachable_consistent[OF assms(1)])
  have h: "handleKeydown stringify throws e s =
             (if \<not> isTrusted e \<or> stringify e = [] then s
              else backToInitial (clearTimeout (timer s) s))"
    using assms(2) by (subst handleKeydown.simps) (auto simp add: Let_def)
  show ?thesis
    using consistent_backToInitial_clear_idle[OF c]
    by (simp add: dispatchEvent_def h)
qed

theorem untrusted_and_composing_events_witness:
  "reachable sampleParseSequence sampleNormalize sampleStringify sampleThrows None example_d
   \<and> isTrusted composingEvent \<and> isComposing composingEvent
   \<and> sampleStringify composingEvent \<noteq> [] \<and> listening example_d
   \<and> \<not> idle example_d
   \<and> invoked (dispatchEvent sampleStringify sampleThrows composingEvent example_d) = invoked example_d
   \<and> idle (dispatchEvent sampleStringify sampleThrows composingEvent example_d)"
proof -
  have 1: "isTrusted composingEvent \<and> isComposing composingEvent
           \<and> sampleStringify composingEvent \<noteq> []"
    by (simp add: composingEvent_def sampleStringify_def)
  have 2: "listening example_d \<and> \<not> idle example_d"
    by (simp add: example_d_eval idle_def)
  have 3: "invoked (dispatchEvent sampleStringify sampleThrows composingEvent example_d) = invoked example_d
           \<and> idle (dispatchEvent sampleStringify sampleThrows composingEvent example_d)"
    using untrusted_and_composing_events[OF example_d_reachable, of composingEvent] 1 2 by simp
  from example_d_reachable 1 2 3 show ?thesis by blast
qed

subsection \<open>Reconciliation after a change of the table\<close>

text \<open>
  Claim C5, as stated, fails: \<open>bind\<close> does not empty the buffer when the table
  is left non-empty. With \<open>d\<close> and \<open>dd\<close> bound and \<open>d\<close> typed, a successful
  \<open>bind("x", ...)\<close> leaves the buffer \<open>d\<close>, the candidates \<open>d\<close> and \<open>dd\<close> and
  the pending timer as they were.
\<close>

theorem table_mutation_counterexample:
  "reachable sampleParseSequence sampleNormalize sampleStringify sampleThrows None example_d
   \<and> fst (bind sampleParseSequence sampleNormalize [(''x'', 30)] example_d) = []
   \<and> example_d_bind_x = snd (bind sampleParseSequence sampleNormalize [(''x'', 30)] example_d)
   \<and> map fst (bindings example_d_bind_x) = [''d'', ''dd'', ''x'']
   \<and> currentSequence example_d_bind_x = ''d''
   \<and> filtered example_d_bind_x = [''d'', ''dd'']
   \<and> timeouts example_d_bind_x = [(0, PrevBestMatchCommand (''d'', 10, mockEvent ''d''), 1000)]
   \<and> \<not> idle example_d_bind_x"
proof -
  have "map fst (bindings example_d_bind_x) = [''d'', ''dd'', ''x'']
   \<and> currentSequence example_d_bind_x = ''d''
   \<and> filtered example_d_bind_x = [''d'', ''dd'']
   \<and> timeouts example_d_bind_x = [(0, PrevBestMatchCommand (''d'', 10, mockEvent ''d''), 1000)]
   \<and> \<not> idle example_d_bind_x"
    by (simp add: example_d_bind_x_eval idle_def)
  with example_d_reachable example_d_bind_x_report example_d_bind_x_def show ?thesis by blast
qed

text \<open>
  Claim C5, amended. In every reachable state, after \<open>bind\<close>, \<open>unbind\<close> or
  \<open>reset\<close> the Candidate Set is the set of bound sequences that start with the
  Current Sequence Buffer. A \<open>bind\<close> or \<open>unbind\<close> that leaves the table empty,
  and every \<open>reset\<close>, leaves the engine idle (empty buffer, empty holder, no
  timer); a \<open>bind\<close> or \<open>unbind\<close> that leaves the table non-empty keeps the
  buffer, the holder and the pending timer as they were.
\<close>

theorem table_mutation_reconciles:
  assumes "reachable parseSequence normalizeKey stringify throws options s"
  shows "(let s' = snd (bind parseSequence normalizeKey keyBindings s) in
            set (filtered s') = {k \<in> fst ` set (bindings s'). startsWith k (currentSequence s')}
            \<and> (bindings s' = [] \<longrightarrow> idle s')
            \<and> (bindings s' \<noteq> [] \<longrightarrow>
                  currentSequence s' = currentSequence s
                  \<and> prevBestMatchCommand s' = prevBestMatchCommand s
                  \<and> timeouts s' = timeouts s))
         \<and> (let s' = unbind parseSequence normalizeKey sequences s in
            set (filtered s') = {k \<in> fst ` set (bindings s'). startsWith k (currentSequence s')}
            \<and> (bindings s' = [] \<longrightarrow> idle s')
            \<and> (bindings s' \<noteq> [] \<longrightarrow>
                  currentSequence s' = currentSequence s
                  \<and> prevBestMatchCommand s' = prevBestMatchCommand s
                  \<and> timeouts s' = timeouts s))
         \<and> bindings (reset s) = [] \<and> filtered (reset s) = [] \<and> idle (reset s)"
proof -
  have c: "consistent s" by (rule reachable_consistent[OF assms])
  let ?b = "snd (snd (bindLoop parseSequence normalizeKey keyBindings [] [] s))"
  let ?u = "unbindLoop parseSequence normalizeKey sequences s"
  have cb: "consistent ?b" by (rule consistent_bindLoop[OF c])
  have cu: "consistent ?u" by (rule consistent_unbindLoop[OF c])
  have b1: "set (filtered (snd (bind parseSequence normalizeKey keyBindings s))) =
              {k \<in> fst ` set (bindings (snd (bind parseSequence normalizeKey keyBindings s))).
                 startsWith k (currentSequence (snd (bind parseSequence normalizeKey keyBindings s)))}"
    using consistentD(3)[OF consistent_bind[OF c]] by (simp add: startsWith_def)
  have u1: "set (filtered (unbind parseSequence normalizeKey sequences s)) =
              {k \<in> fst ` set (bindings (unbind parseSequence normalizeKey sequences s)).
                 startsWith k (currentSequence (unbind parseSequence normalizeKey sequences s))}"
    using consistentD(3)[OF consistent_unbind[OF c]] by (simp add: startsWith_def)
  have b2: "bindings (snd (bind parseSequence normalizeKey keyBindings s)) = [] \<longrightarrow>
              idle (snd (bind parseSequence normalizeKey keyBindings s))"
    using consistent_backToInitial_idle[of "logger (Debug_binded
        (fst (snd (bindLoop parseSequence normalizeKey keyBindings [] [] s)))) ?b"] cb
    by (simp add: bind_state emitChange_def Let_def)
  have u2: "bindings (unbind parseSequence normalizeKey sequences s) = [] \<longrightarrow>
              idle (unbind parseSequence normalizeKey sequences s)"
    using consistent_backToInitial_idle[OF cu]
    by (simp add: unbind_def emitChange_def Let_def)
  have b3: "bindings (snd (bind parseSequence normalizeKey keyBindings s)) \<noteq> [] \<longrightarrow>
              currentSequence (snd (bind parseSequence normalizeKey keyBindings s)) = currentSequence s
              \<and> prevBestMatchCommand (snd (bind parseSequence normalizeKey keyBindings s)) = prevBestMatchCommand s
              \<and> timeouts (snd (bind parseSequence normalizeKey keyBindings s)) = timeouts s"
    by (simp add: bind_state emitChange_def Let_def)
  have u3: "bindings (unbind parseSequence normalizeKey sequences s) \<noteq> [] \<longrightarrow>
              currentSequence (unbind parseSequence normalizeKey sequences s) = currentSequence s
              \<and> prevBestMatchCommand (unbind parseSequence normalizeKey sequences s) = prevBestMatchCommand s
              \<and> timeouts (unbind parseSequence normalizeKey sequences s) = timeouts s"
    by (simp add: unbind_def emitChange_def Let_def)
  have r: "bindings (reset s) = [] \<and> filtered (reset s) = [] \<and> idle (reset s)"
    using consistent_clearTimeout[OF c]
    by (simp add: reset_def emitChange_def Let_def idle_def clearTimeout_timeouts split: option.splits)
  from b1 b2 b3 u1 u2 u3 r show ?thesis by (simp only: Let_def)
qed

theorem table_mutation_reconciles_witness:
  "reachable sampleParseSequence sampleNormalize sampleStringify sampleThrows None example_d
   \<and> bindings example_d_bind_x \<noteq> []
   \<and> set (filtered example_d_bind_x) = {''d'', ''dd''}
   \<and> currentSequence example_d_bind_x = currentSequence example_d
   \<and> timeouts example_d_bind_x = timeouts example_d
   \<and> bindings (unbind sampleParseSequence sampleNormalize [''d'', ''dd''] example_d) = []
   \<and> idle (unbind sampleParseSequence sampleNormalize [''d'', ''dd''] example_d)
   \<and> idle (reset example_d)"
proof -
  note t = table_mutation_reconciles[OF example_d_reachable,
      of "[(''x'', 30)]" "[''d'', ''dd'']", unfolded Let_def, folded example_d_bind_x_def]
  have 1: "bindings example_d_bind_x \<noteq> []"
    by (simp add: example_d_bind_x_eval)
  have 2: "set (filtered example_d_bind_x) = {''d'', ''dd''}"
    by (simp add: example_d_bind_x_eval)
  have 3: "bindings (unbind sampleParseSequence sampleNormalize [''d'', ''dd''] example_d) = []"
    by (simp add: example_d_eval sample_defs unbind_def normalizeSequence_def)
  from t 1 have 4: "currentSequence example_d_bind_x = currentSequence example_d
    \<and> timeouts example_d_bind_x = timeouts example_d" by blast
  from t 3 have 5: "idle (unbind sampleParseSequence sampleNormalize [''d'', ''dd''] example_d)"
    by blast
  from t have 6: "idle (reset example_d)" by blast
  from example_d_reachable 1 2 3 4 5 6 show ?thesis by blast
qed

subsection \<open>Batch bind\<close>

text \<open>
  Claim C4. \<open>bind\<close> treats the sequences of a batch one by one. A sequence that
  fails to normalize is in the returned error map with its errors, and the
  map holds nothing else; the table after the call is the table before it,
  overwritten at the canonical form of each sequence that normalized (the last
  such entry of the batch winning), whatever happened to the other sequences,
  so a failed sequence changes no entry; and the error map is empty exactly
  when every sequence normalized.
\<close>

theorem bind_per_sequence:
  "(\<forall>(seq, cmd) \<in> set keyBindings. \<forall>errors.
       normalizeSequence parseSequence normalizeKey seq = Inl errors \<longrightarrow>
       map_of (fst (bind parseSequence normalizeKey keyBindings s)) seq = Some errors)
   \<and> (\<forall>seq errors.
       map_of (fst (bind parseSequence normalizeKey keyBindings s)) seq = Some errors \<longrightarrow>
       seq \<in> fst ` set keyBindings
       \<and> normalizeSequence parseSequence normalizeKey seq = Inl errors)
   \<and> (\<forall>k. map_of (bindings (snd (bind parseSequence normalizeKey keyBindings s))) k =
         (if [cmd. (seq, cmd) \<leftarrow> keyBindings,
                   normalizeSequence parseSequence normalizeKey seq = Inr k] = []
          then map_of (bindings s) k
          else Some (last [cmd. (seq, cmd) \<leftarrow> keyBindings,
                                normalizeSequence parseSequence normalizeKey seq = Inr k])))
   \<and> (fst (bind parseSequence normalizeKey keyBindings s) = [] \<longleftrightarrow>
        (\<forall>(seq, cmd) \<in> set keyBindings.
           \<exists>normalized. normalizeSequence parseSequence normalizeKey seq = Inr normalized))"
proof -
  have f: "fst (bind parseSequence normalizeKey keyBindings s)
             = fst (bindLoop parseSequence normalizeKey keyBindings [] [] s)"
    by (simp add: bind_def split_beta)
  have 1: "\<forall>(seq, cmd) \<in> set keyBindings. \<forall>errors.
       normalizeSequence parseSequence normalizeKey seq = Inl errors \<longrightarrow>
       map_of (fst (bind parseSequence normalizeKey keyBindings s)) seq = Some errors"
    unfolding f bindLoop_errorMap by force
  have 2: "\<forall>seq errors.
       map_of (fst (bind parseSequence normalizeKey keyBindings s)) seq = Some errors \<longrightarrow>
       seq \<in> fst ` set keyBindings
       \<and> normalizeSequence parseSequence normalizeKey seq = Inl errors"
    unfolding f bindLoop_errorMap by (auto split: if_splits simp add: isl_def)
  have 3: "\<forall>k. map_of (bindings (snd (bind parseSequence normalizeKey keyBindings s))) k =
         (if [cmd. (seq, cmd) \<leftarrow> keyBindings,
                   normalizeSequence parseSequence normalizeKey seq = Inr k] = []
          then map_of (bindings s) k
          else Some (last [cmd. (seq, cmd) \<leftarrow> keyBindings,
                                normalizeSequence parseSequence normalizeKey seq = Inr k]))"
    by (simp add: bind_state bindLoop_bindings)
  have 4: "fst (bind parseSequence normalizeKey keyBindings s) = [] \<longleftrightarrow>
        (\<forall>(seq, cmd) \<in> set keyBindings.
           \<exists>normalized. normalizeSequence parseSequence normalizeKey seq = Inr normalized)"
    unfolding f bindLoop_errorMap_Nil by (force simp add: not_isl_iff)
  from 1 2 3 4 show ?thesis by blast
qed

theorem bind_per_sequence_witness:
  "normalizeSequence sampleParseSequence sampleNormalize ''a<'' = Inl [InvalidSequenceError]
   \<and> normalizeSequence sampleParseSequence sampleNormalize ''?y'' = Inl [InvalidKeyError]
   \<and> normalizeSequence sampleParseSequence sampleNormalize ''x'' = Inr ''x''
   \<and> normalizeSequence sampleParseSequence sampleNormalize ''dd'' = Inr ''dd''
   \<and> map_of (bindings example_d) ''dd'' = Some 20
   \<and> map_of (fst (bind sampleParseSequence sampleNormalize
                     [(''a<'', 11), (''x'', 12), (''?y'', 14), (''dd'', 15)] example_d)) ''a<''
       = Some [InvalidSequenceError]
   \<and> map_of (fst (bind sampleParseSequence sampleNormalize
                     [(''a<'', 11), (''x'', 12), (''?y'', 14), (''dd'', 15)] example_d)) ''?y''
       = Some [InvalidKeyError]
   \<and> map_of (fst (bind sampleParseSequence sampleNormalize
                     [(''a<'', 11), (''x'', 12), (''?y'', 14), (''dd'', 15)] example_d)) ''x''
       = None
   \<and> fst (bind sampleParseSequence sampleNormalize
             [(''a<'', 11), (''x'', 12), (''?y'', 14), (''dd'', 15)] example_d) \<noteq> []
   \<and> map_of (bindings (snd (bind sampleParseSequence sampleNormalize
                     [(''a<'', 11), (''x'', 12), (''?y'', 14), (''dd'', 15)] example_d))) ''x''
       = Some 12
   \<and> map_of (bindings (snd (bind sampleParseSequence sampleNormalize
                     [(''a<'', 11), (''x'', 12), (''?y'', 14), (''dd'', 15)] example_d))) ''dd''
       = Some 15
   \<and> map_of (bindings (snd (bind sampleParseSequence sampleNormalize
                     [(''a<'', 11), (''x'', 12), (''?y'', 14), (''dd'', 15)] example_d))) ''d''
       = Some 10
   \<and> map_of (bindings (snd (bind sampleParseSequence sampleNormalize
                     [(''a<'', 11), (''x'', 12), (''?y'', 14), (''dd'', 15)] example_d))) ''a''
       = None"
proof -
  let ?r = "bind sampleParseSequence sampleNormalize
              [(''a<'', 11), (''x'', 12), (''?y'', 14), (''dd'', 15)] example_d"
  note t = bind_per_sequence[of "[(''a<'', 11), (''x'', 12), (''?y'', 14), (''dd'', 15)]"
      sampleParseSequence sampleNormalize example_d]
  have b: "map_of (bindings example_d) ''dd'' = Some 20 \<and> map_of (bindings example_d) ''d'' = Some 10
           \<and> map_of (bindings example_d) ''a'' = None"
    by (simp add: example_d_eval)
  note c2 = t[THEN conjunct2, THEN conjunct1, rule_format]
  note k = t[THEN conjunct2, THEN conjunct2, THEN conjunct1, rule_format]
  have 1: "map_of (fst ?r) ''a<'' = Some [InvalidSequenceError]
           \<and> map_of (fst ?r) ''?y'' = Some [InvalidKeyError]"
    using t by (simp add: sample_normalizeSequence)
  have 2: "map_of (fst ?r) ''x'' = None"
  proof (cases "map_of (fst ?r) ''x''")
    case None
    then show ?thesis .
  next
    case (Some errors)
    from c2[OF Some] have "normalizeSequence sampleParseSequence sampleNormalize ''x'' = Inl errors"
      by simp
    then show ?thesis by (simp add: sample_normalizeSequence)
  qed
  have 3: "fst ?r \<noteq> []"
    using 1 by auto
  have 4: "map_of (bindings (snd ?r)) ''x'' = Some 12"
    by (simp add: k sample_normalizeSequence)
  have 5: "map_of (bindings (snd ?r)) ''dd'' = Some 15"
    by (simp add: k sample_normalizeSequence)
  have 6: "map_of (bindings (snd ?r)) ''d'' = Some 10"
    using b by (simp add: k sample_normalizeSequence)
  have 7: "map_of (bindings (snd ?r)) ''a'' = None"
    using b by (simp add: k sample_normalizeSequence)
  from b 1 2 3 4 5 6 7 show ?thesis by (simp add: sample_normalizeSequence)
qed

subsection \<open>Unbind\<close>

text \<open>
  Claim C8. \<open>unbind\<close> normalizes each argument before looking it up: the table
  after the call is the table before it without the entries whose key is the
  canonical form of an argument, and no such canonical form is a candidate
  afterwards. Arguments that fail to normalize change nothing (when all of
  them fail the call only does what \<open>emitChange\<close> does). Nothing is reported:
  the function returns no value, the only entry it can add to the log is the
  debug line of a reset, and no command is invoked.
\<close>

theorem unbind_normalizes_and_ignores:
  "bindings (unbind parseSequence normalizeKey sequences s) =
     filter (\<lambda>(k, c). \<not> (\<exists>q \<in> set sequences. normalizeSequence parseSequence normalizeKey q = Inr k))
       (bindings s)
   \<and> (\<forall>q \<in> set sequences. \<forall>normalized.
        normalizeSequence parseSequence normalizeKey q = Inr normalized \<longrightarrow>
        normalized \<notin> fst ` set (bindings (unbind parseSequence normalizeKey sequences s))
        \<and> normalized \<notin> set (filtered (unbind parseSequence normalizeKey sequences s)))
   \<and> ((\<forall>q \<in> set sequences. isl (normalizeSequence parseSequence normalizeKey q)) \<longrightarrow>
        unbind parseSequence normalizeKey sequences s = emitChange s)
   \<and> logged (unbind parseSequence normalizeKey sequences s) =
        logged s @ (if bindings (unbind parseSequence normalizeKey sequences s) = []
                    then [Debug_reset] else [])
   \<and> invoked (unbind parseSequence normalizeKey sequences s) = invoked s"
proof -
  let ?u = "unbindLoop parseSequence normalizeKey sequences s"
  have 1: "bindings (unbind parseSequence normalizeKey sequences s) =
     filter (\<lambda>(k, c). \<not> (\<exists>q \<in> set sequences. normalizeSequence parseSequence normalizeKey q = Inr k))
       (bindings s)"
    by (simp add: unbind_def unbindLoop_bindings)
  have 2: "\<forall>q \<in> set sequences. \<forall>normalized.
        normalizeSequence parseSequence normalizeKey q = Inr normalized \<longrightarrow>
        normalized \<notin> fst ` set (bindings (unbind parseSequence normalizeKey sequences s))"
    unfolding 1 by force
  have 3: "\<forall>q \<in> set sequences. \<forall>normalized.
        normalizeSequence parseSequence normalizeKey q = Inr normalized \<longrightarrow>
        normalized \<notin> set (filtered (unbind parseSequence normalizeKey sequences s))"
  proof (cases "bindings ?u = []")
    case True
    then show ?thesis by (simp add: unbind_def emitChange_def Let_def)
  next
    case False
    then show ?thesis by (auto simp add: unbind_def emitChange_def unbindLoop_filtered)
  qed
  have 4: "(\<forall>q \<in> set sequences. isl (normalizeSequence parseSequence normalizeKey q)) \<longrightarrow>
        unbind parseSequence normalizeKey sequences s = emitChange s"
    by (simp add: unbind_def unbindLoop_all_fail)
  have 5: "logged (unbind parseSequence normalizeKey sequences s) =
        logged s @ (if bindings (unbind parseSequence normalizeKey sequences s) = []
                    then [Debug_reset] else [])"
    by (simp add: unbind_def emitChange_def Let_def)
  have 6: "invoked (unbind parseSequence normalizeKey sequences s) = invoked s"
    by (simp add: unbind_def)
  from 1 2 3 4 5 6 show ?thesis by blast
qed

theorem unbind_normalizes_and_ignores_witness:
  "normalizeSequence sampleParseSequence sampleNormalize ''a<'' = Inl [InvalidSequenceError]
   \<and> normalizeSequence sampleParseSequence sampleNormalize ''?y'' = Inl [InvalidKeyError]
   \<and> normalizeSequence sampleParseSequence sampleNormalize ''dd'' = Inr ''dd''
   \<and> normalizeSequence sampleParseSequence sampleNormalize ''zz'' = Inr ''zz''
   \<and> bindings example_d = [(''d'', 10), (''dd'', 20)]
   \<and> bindings (unbind sampleParseSequence sampleNormalize [''a<'', ''dd'', ''?y'', ''zz''] example_d)
       = [(''d'', 10)]
   \<and> ''dd'' \<notin> set (filtered (unbind sampleParseSequence sampleNormalize
                                 [''a<'', ''dd'', ''?y'', ''zz''] example_d))
   \<and> logged (unbind sampleParseSequence sampleNormalize [''a<'', ''dd'', ''?y'', ''zz''] example_d)
       = logged example_d
   \<and> unbind sampleParseSequence sampleNormalize [''a<'', ''?y''] example_d
       = emitChange example_d"
proof -
  note t = unbind_normalizes_and_ignores[of sampleParseSequence sampleNormalize
      "[''a<'', ''dd'', ''?y'', ''zz'']" example_d]
  note u = unbind_normalizes_and_ignores[of sampleParseSequence sampleNormalize
      "[''a<'', ''?y'']" example_d]
  have b: "bindings example_d = [(''d'', 10), (''dd'', 20)]"
    by (simp add: example_d_eval)
  have 1: "bindings (unbind sampleParseSequence sampleNormalize [''a<'', ''dd'', ''?y'', ''zz''] example_d)
       = [(''d'', 10)]"
    using t b by (simp add: sample_normalizeSequence)
  have 2: "''dd'' \<notin> set (filtered (unbind sampleParseSequence sampleNormalize
                                 [''a<'', ''dd'', ''?y'', ''zz''] example_d))"
    using t by (simp add: sample_normalizeSequence)
  have 3: "logged (unbind sampleParseSequence sampleNormalize [''a<'', ''dd'', ''?y'', ''zz''] example_d)
       = logged example_d"
    using t 1 by simp
  have 4: "unbind sampleParseSequence sampleNormalize [''a<'', ''?y''] example_d
       = emitChange example_d"
    using u by (simp add: sample_normalizeSequence)
  from b 1 2 3 4 show ?thesis by (simp add: sample_normalizeSequence)
qed

subsection \<open>Commands that throw\<close>

text \<open>
  Claim C6. When the command invoked by \<open>bestMatchCommand\<close> throws, the error
  is logged at the point of invocation (between the \<open>run\<close> line and the reset
  line of the log), and the state that results is, but for the log, the state
  that results when the command returns: the call is recorded, the buffer is
  empty, the holder is empty, the candidate set is the table's key set and the
  timer \<open>this.timer\<close> names is cancelled. The same holds for the whole of a key
  event (\<open>handleKeydown\<close>, and its delivery by the host) and of a timer expiry:
  they return a state, the same state but for the log whether commands throw
  or not, so no error leaves the engine.
\<close>

theorem command_errors_are_contained:
  "(throws (fst (snd m)) (snd (snd m)) = Some error \<longrightarrow>
      logged (runBestMatch throws m s)
        = logged s @ [Debug_run (fst m), Error_thrown error, Debug_reset])
   \<and> (runBestMatch throws m s)\<lparr>logged := []\<rparr>
       = (runBestMatch (\<lambda>command e. None) m s)\<lparr>logged := []\<rparr>
   \<and> invoked (runBestMatch throws m s) = invoked s @ [(fst (snd m), snd (snd m))]
   \<and> currentSequence (runBestMatch throws m s) = []
   \<and> prevBestMatchCommand (runBestMatch throws m s) = None
   \<and> filtered (runBestMatch throws m s) = map fst (bindings s)
   \<and> timeouts (runBestMatch throws m s) = timeouts (clearTimeout (timer s) s)
   \<and> (handleKeydown stringify throws e s)\<lparr>logged := []\<rparr>
       = (handleKeydown stringify (\<lambda>command e. None) e s)\<lparr>logged := []\<rparr>
   \<and> (dispatchEvent stringify throws e s)\<lparr>logged := []\<rparr>
       = (dispatchEvent stringify (\<lambda>command e. None) e s)\<lparr>logged := []\<rparr>
   \<and> (fireTimeout throws i s)\<lparr>logged := []\<rparr>
       = (fireTimeout (\<lambda>command e. None) i s)\<lparr>logged := []\<rparr>"
proof -
  have 1: "throws (fst (snd m)) (snd (snd m)) = Some error \<longrightarrow>
      logged (runBestMatch throws m s)
        = logged s @ [Debug_run (fst m), Error_thrown error, Debug_reset]"
    by (simp add: runBestMatch_logged)
  have 2: "(runBestMatch throws m s)\<lparr>logged := []\<rparr>
       = (runBestMatch (\<lambda>command e. None) m s)\<lparr>logged := []\<rparr>"
    by (rule runBestMatch_same_but_log[OF refl])
  have 3: "(handleKeydown stringify throws e s)\<lparr>logged := []\<rparr>
       = (handleKeydown stringify (\<lambda>command e. None) e s)\<lparr>logged := []\<rparr>"
    by (rule handleKeydown_same_but_log[OF refl])
  have 4: "(fireTimeout throws i s)\<lparr>logged := []\<rparr>
       = (fireTimeout (\<lambda>command e. None) i s)\<lparr>logged := []\<rparr>"
    using runBestMatch_same_but_log[OF refl, of throws _ _ "\<lambda>command e. None"]
    by (simp add: fireTimeout_def Let_def split: option.splits timeout_handler.splits)
  from 1 2 3 4 show ?thesis by (simp add: dispatchEvent_def)
qed

theorem command_errors_are_contained_witness:
  "sampleThrows 13 (mockEvent ''x'') = Some ''boom''
   \<and> logged (runBestMatch sampleThrows (''x'', 13, mockEvent ''x'') exampleX)
       = logged exampleX @ [Debug_run ''x'', Error_thrown ''boom'', Debug_reset]
   \<and> idle (runBestMatch sampleThrows (''x'', 13, mockEvent ''x'') exampleX)
   \<and> invoked example_x = [(13, mockEvent ''x'')]
   \<and> Error_thrown ''boom'' \<in> set (logged example_x)
   \<and> idle example_x
   \<and> example_x\<lparr>logged := []\<rparr>
       = (dispatchEvent sampleStringify (\<lambda>command e. None) (mockEvent ''x'') exampleX)\<lparr>logged := []\<rparr>"
proof -
  note t = command_errors_are_contained[of sampleThrows "(''x'', 13, mockEvent ''x'')" "''boom''"
      exampleX sampleStringify "mockEvent ''x''" 0]
  have 1: "sampleThrows 13 (mockEvent ''x'') = Some ''boom''"
    by (simp add: sampleThrows_def)
  have 2: "logged (runBestMatch sampleThrows (''x'', 13, mockEvent ''x'') exampleX)
       = logged exampleX @ [Debug_run ''x'', Error_thrown ''boom'', Debug_reset]"
    using t 1 by simp
  have 3: "idle (runBestMatch sampleThrows (''x'', 13, mockEvent ''x'') exampleX)"
    using t by (simp add: idle_def exampleX_eval)
  have 4: "invoked example_x = [(13, mockEvent ''x'')]
   \<and> Error_thrown ''boom'' \<in> set (logged example_x) \<and> idle example_x"
    by (simp add: example_x_eval idle_def)
  have 5: "example_x\<lparr>logged := []\<rparr>
       = (dispatchEvent sampleStringify (\<lambda>command e. None) (mockEvent ''x'') exampleX)\<lparr>logged := []\<rparr>"
    using t unfolding example_x_def by blast
  from 1 2 3 4 5 show ?thesis by blast
qed

subsection \<open>A bound sequence fires\<close>

text \<open>
  Claim C2, as stated, fails: when a longer bound sequence starts with \<open>S\<close>,
  the tokens of \<open>S\<close> do not invoke its command. With \<open>dd\<close> bound, a successful
  \<open>bind("d", ...)\<close> on the idle engine followed by the key \<open>d\<close> invokes
  nothing and leaves \<open>d\<close> in the buffer: the engine waits for the timer.
\<close>

theorem bound_sequence_counterexample:
  "idle exampleDD
   \<and> normalizeSequence sampleParseSequence sampleNormalize ''d'' = Inr ''d''
   \<and> fst (bind sampleParseSequence sampleNormalize [(''d'', 10)] exampleDD) = []
   \<and> exampleDD_D = snd (bind sampleParseSequence sampleNormalize [(''d'', 10)] exampleDD)
   \<and> map_of (bindings exampleDD_D) ''d'' = Some 10
   \<and> isTrusted (mockEvent ''d'') \<and> \<not> isComposing (mockEvent ''d'')
   \<and> sampleStringify (mockEvent ''d'') = ''d''
   \<and> invoked exampleDD_D = []
   \<and> invoked (dispatchEvent sampleStringify sampleThrows (mockEvent ''d'') exampleDD_D) = []
   \<and> currentSequence (dispatchEvent sampleStringify sampleThrows (mockEvent ''d'') exampleDD_D)
       = ''d''"
proof -
  have 1: "fst (bind sampleParseSequence sampleNormalize [(''d'', 10)] exampleDD) = []"
    by (rule bind_single(1)[OF sample_normalizeSequence(4)])
  have 2: "map_of (bindings exampleDD_D) ''d'' = Some 10 \<and> invoked exampleDD_D = []"
    by (simp add: exampleDD_D_eval)
  have 3: "isTrusted (mockEvent ''d'') \<and> \<not> isComposing (mockEvent ''d'')
           \<and> sampleStringify (mockEvent ''d'') = ''d''"
    by (simp add: sample_defs)
  have 4: "invoked (dispatchEvent sampleStringify sampleThrows (mockEvent ''d'') exampleDD_D) = []
   \<and> currentSequence (dispatchEvent sampleStringify sampleThrows (mockEvent ''d'') exampleDD_D)
       = ''d''"
    by (simp add: exampleDD_D_eval sample_defs engine_defs)
  from exampleDD_idle sample_normalizeSequence(4) 1 2 3 4 exampleDD_D_def show ?thesis by blast
qed

text \<open>
  Claim C2, amended. In a reachable state with an empty buffer, let \<open>bind(S, C)\<close>
  be called with a sequence that normalizes to \<open>S\<close>, and let no bound sequence
  other than \<open>S\<close> itself start with \<open>S\<close>. Then \<open>bind\<close> reports no error, and
  feeding trusted, non-composing events whose tokens concatenate to \<open>S\<close> (at
  least one, none empty), with no other input in between, invokes \<open>C\<close>
  exactly once, with the last event, invokes nothing else, and leaves the
  buffer empty and the engine idle.
\<close>

theorem bound_sequence_fires_once:
  assumes "reachable parseSequence normalizeKey stringify throws options s"
    and "currentSequence s = []"
    and "normalizeSequence parseSequence normalizeKey sequence = Inr S"
    and "\<forall>k \<in> fst ` set (bindings s). prefix S k \<longrightarrow> k = S"
    and "es \<noteq> []"
    and "\<forall>e \<in> set es. isTrusted e \<and> \<not> isComposing e \<and> stringify e \<noteq> []"
    and "concat (map stringify es) = S"
  shows "fst (bind parseSequence normalizeKey [(sequence, command)] s) = []
         \<and> invoked (foldl (\<lambda>s e. dispatchEvent stringify throws e s)
                     (snd (bind parseSequence normalizeKey [(sequence, command)] s)) es)
             = invoked s @ [(command, last es)]
         \<and> currentSequence (foldl (\<lambda>s e. dispatchEvent stringify throws e s)
                     (snd (bind parseSequence normalizeKey [(sequence, command)] s)) es) = []
         \<and> idle (foldl (\<lambda>s e. dispatchEvent stringify throws e s)
                     (snd (bind parseSequence normalizeKey [(sequence, command)] s)) es)"
proof -
  let ?s1 = "snd (bind parseSequence normalizeKey [(sequence, command)] s)"
  note b = bind_single[OF assms(3), of command s]
  have c: "consistent ?s1"
    by (rule consistent_bind[OF reachable_consistent[OF assms(1)]])
  have m: "map_of (bindings ?s1) S = Some command"
    by (simp add: b(2) update_conv')
  have k: "\<forall>k \<in> fst ` set (bindings ?s1). prefix S k \<longrightarrow> k = S"
    using assms(4) by (simp add: b(2) dom_update)
  have q: "currentSequence ?s1 @ concat (map stringify es) = S"
    using assms(2,7) by (simp add: b(4))
  note f = feed_tokens[where stringify = stringify and throws = throws,
      OF c b(3) m k assms(5) assms(6) q]
  show ?thesis
    using f b(1) by (simp add: b(5) idle_def)
qed

theorem bound_sequence_fires_once_witness:
  "reachable sampleParseSequence sampleNormalize sampleStringify sampleThrows None exampleD_DD
   \<and> currentSequence exampleD_DD = []
   \<and> normalizeSequence sampleParseSequence sampleNormalize ''dd'' = Inr ''dd''
   \<and> map fst (bindings exampleD_DD) = [''d'', ''dd'']
   \<and> \<not> prefix ''dd'' ''d''
   \<and> isTrusted (mockEvent ''d'') \<and> \<not> isComposing (mockEvent ''d'')
   \<and> sampleStringify (mockEvent ''d'') = ''d''
   \<and> concat (map sampleStringify [mockEvent ''d'', mockEvent ''d'']) = ''dd''
   \<and> invoked exampleD_DD = []
   \<and> fst (bind sampleParseSequence sampleNormalize [(''dd'', 25)] exampleD_DD) = []
   \<and> invoked (foldl (\<lambda>s e. dispatchEvent sampleStringify sampleThrows e s)
               (snd (bind sampleParseSequence sampleNormalize [(''dd'', 25)] exampleD_DD))
               [mockEvent ''d'', mockEvent ''d'']) = [(25, mockEvent ''d'')]
   \<and> currentSequence (foldl (\<lambda>s e. dispatchEvent sampleStringify sampleThrows e s)
               (snd (bind sampleParseSequence sampleNormalize [(''dd'', 25)] exampleD_DD))
               [mockEvent ''d'', mockEvent ''d'']) = []"
proof -
  have 1: "currentSequence exampleD_DD = [] \<and> invoked exampleD_DD = []"
    by (simp add: exampleD_DD_eval)
  have k: "map fst (bindings exampleD_DD) = [''d'', ''dd''] \<and> \<not> prefix ''dd'' ''d''"
    by (simp add: exampleD_DD_eval)
  have 2: "\<forall>k \<in> fst ` set (bindings exampleD_DD). prefix ''dd'' k \<longrightarrow> k = ''dd''"
    by (simp add: exampleD_DD_eval)
  have m: "isTrusted (mockEvent ''d'') \<and> \<not> isComposing (mockEvent ''d'')
           \<and> sampleStringify (mockEvent ''d'') = ''d''"
    by (simp add: sample_defs)
  have 3: "\<forall>e \<in> set [mockEvent ''d'', mockEvent ''d''].
         isTrusted e \<and> \<not> isComposing e \<and> sampleStringify e \<noteq> []"
    using m by simp
  have 4: "concat (map sampleStringify [mockEvent ''d'', mockEvent ''d'']) = ''dd''"
    using m by simp
  have 5: "[mockEvent ''d'', mockEvent ''d''] \<noteq> []" by simp
  note t = bound_sequence_fires_once[where stringify = sampleStringify and throws = sampleThrows
      and command = 25, OF exampleD_DD_reachable conjunct1[OF 1] sample_normalizeSequence(5) 2 5 3 4]
  have 6: "fst (bind sampleParseSequence sampleNormalize [(''dd'', 25)] exampleD_DD) = []
   \<and> invoked (foldl (\<lambda>s e. dispatchEvent sampleStringify sampleThrows e s)
               (snd (bind sampleParseSequence sampleNormalize [(''dd'', 25)] exampleD_DD))
               [mockEvent ''d'', mockEvent ''d'']) = [(25, mockEvent ''d'')]
   \<and> currentSequence (foldl (\<lambda>s e. dispatchEvent sampleStringify sampleThrows e s)
               (snd (bind sampleParseSequence sampleNormalize [(''dd'', 25)] exampleD_DD))
               [mockEvent ''d'', mockEvent ''d'']) = []"
    using t 1 by simp
  from exampleD_DD_reachable 1 sample_normalizeSequence(5) k m 4 6 show ?thesis by blast
qed

end
